theory Spec2Isabelle
  imports Complex_Main "HOL-Library.Log_Nat" "HOL-Library.Char_ord" "HOL-Library.List_Lexorder"
begin

section \<open>JavaScript numbers\<close>

text \<open>
  A JavaScript number is an IEEE 754 binary64 value. The finite ones are rationals, so a
  number is modelled as a \<^typ>\<open>rat\<close> and every arithmetic operation as the exact operation
  followed by rounding to the nearest binary64 value, ties to the even significand
  (\<open>fl\<close>). The exponent is not limited: overflow to infinity and the loss of precision
  in the subnormal range are not modelled, and the statements below bound the values they
  are about. The results of \<open>Math.round\<close>, the operands of \<open>%\<close> and the time values of dates
  are integers in the program and are modelled as \<^typ>\<open>int\<close>.
\<close>

type_synonym number = rat

definition ilog2 :: "rat \<Rightarrow> int" where
  \<comment> \<open>for \<open>x > 0\<close>: the integer \<open>e\<close> with \<open>2 powi e \<le> x < 2 powi (e + 1)\<close>\<close>
  "ilog2 x = (case quotient_of x of (p, q) \<Rightarrow>
     let b = bitlen p - bitlen q in if 2 powi b \<le> x then b else b - 1)"

definition roundEven :: "rat \<Rightarrow> int" where
  "roundEven x = (let f = \<lfloor>x\<rfloor>; r = x - of_int f in
     if r < 1 / 2 then f else if 1 / 2 < r then f + 1 else if even f then f else f + 1)"

definition fl :: "rat \<Rightarrow> number" where
  "fl x = (if x = 0 then 0 else
     let e = ilog2 \<bar>x\<bar> - 52 in of_int (roundEven (x / 2 powi e)) * 2 powi e)"

definition jsAdd :: "number \<Rightarrow> number \<Rightarrow> number" where
  "jsAdd a b = fl (a + b)"

definition jsSub :: "number \<Rightarrow> number \<Rightarrow> number" where
  "jsSub a b = fl (a - b)"

definition jsMul :: "number \<Rightarrow> number \<Rightarrow> number" where
  "jsMul a b = fl (a * b)"

definition jsDiv :: "number \<Rightarrow> number \<Rightarrow> number" where
  \<comment> \<open>used with a non-zero divisor only (JavaScript yields \<open>Infinity\<close> or \<open>NaN\<close> otherwise)\<close>
  "jsDiv a b = fl (a / b)"

definition Math_round :: "number \<Rightarrow> int" where
  \<comment> \<open>\<open>Math.round\<close>: the nearest integer, a tie going towards \<open>+\<infinity>\<close>\<close>
  "Math_round x = \<lfloor>x + 1 / 2\<rfloor>"

definition binary64 :: "rat \<Rightarrow> bool" where
  \<comment> \<open>the rationals that are numbers: rounding leaves them as they are\<close>
  "binary64 x \<longleftrightarrow> fl x = x"

definition wholeUpTo :: "nat \<Rightarrow> number \<Rightarrow> bool" where
  \<comment> \<open>a whole number of magnitude at most \<open>M\<close>\<close>
  "wholeUpTo M x \<longleftrightarrow> of_int \<lfloor>x\<rfloor> = x \<and> \<bar>x\<bar> \<le> of_nat M"

definition jsRem :: "int \<Rightarrow> int \<Rightarrow> int" where
  \<comment> \<open>the \<open>%\<close> operator on integers: the remainder has the sign of the dividend\<close>
  "jsRem a b = sgn a * (\<bar>a\<bar> mod \<bar>b\<bar>)"


section \<open>JavaScript dates and the date-fns helpers\<close>

text \<open>
  A \<open>Date\<close> is modelled by its fields in local time: the calendar date it shows
  (\<open>getFullYear()\<close>, \<open>getMonth() + 1\<close>, \<open>getDate()\<close>) and the milliseconds elapsed since
  local midnight. Only valid time values are modelled (the callers build their dates with
  \<open>new Date()\<close>, \<open>addDays\<close> and \<open>eachDayOfInterval\<close>); the \<open>Invalid Date\<close> that
  \<open>parseISO\<close> may return is the value \<open>None\<close>. The time values of JavaScript end
  100,000,000 days on either side of the epoch (the years -271821 and 275760): beyond them
  \<open>addDays\<close> yields an \<open>Invalid Date\<close>, on which \<open>format\<close> throws a \<open>RangeError\<close>. The
  calendar of the model has no such end; it is the calendar of the program for the dates
  in between, and the dates of the data model (\<open>isoDate\<close>) are of the years 0001 to 9999.
\<close>

record Date =
  year :: int
  month :: int
  dayOfMonth :: int
  msOfDay :: int

definition msPerDay :: int where
  "msPerDay = 1000 * 60 * 60 * 24"

definition DaysInYear :: "int \<Rightarrow> int" where
  "DaysInYear y = (if y mod 4 \<noteq> 0 then 365 else if y mod 100 \<noteq> 0 then 366
     else if y mod 400 \<noteq> 0 then 365 else 366)"

definition daysInMonth :: "int \<Rightarrow> int \<Rightarrow> int" where
  "daysInMonth y m = (if m = 2 then (if DaysInYear y = 366 then 29 else 28)
     else if m = 4 \<or> m = 6 \<or> m = 9 \<or> m = 11 then 30 else 31)"

definition validDate :: "Date \<Rightarrow> bool" where
  "validDate d \<longleftrightarrow> 1 \<le> month d \<and> month d \<le> 12 \<and>
     1 \<le> dayOfMonth d \<and> dayOfMonth d \<le> daysInMonth (year d) (month d) \<and>
     0 \<le> msOfDay d \<and> msOfDay d < msPerDay"

definition DayFromYear :: "int \<Rightarrow> int" where
  \<comment> \<open>ECMAScript: the day number of 1 January of year \<open>y\<close>, counted from 1 January 1970\<close>
  "DayFromYear y = 365 * (y - 1970) + (y - 1969) div 4 - (y - 1901) div 100 + (y - 1601) div 400"

definition daysBeforeMonth :: "int \<Rightarrow> int \<Rightarrow> int" where
  "daysBeforeMonth y m =
     [0, 31, 59, 90, 120, 151, 181, 212, 243, 273, 304, 334] ! nat (m - 1) +
     (if 2 < m \<and> DaysInYear y = 366 then 1 else 0)"

definition MakeDay :: "Date \<Rightarrow> int" where
  \<comment> \<open>the day number of the calendar date shown, counted from 1 January 1970\<close>
  "MakeDay d = DayFromYear (year d) + daysBeforeMonth (year d) (month d) + dayOfMonth d - 1"

definition getDay :: "Date \<Rightarrow> int" where
  \<comment> \<open>\<open>getDay()\<close>: 0 = Sunday, 1 = Monday ... 6 = Saturday\<close>
  "getDay d = (MakeDay d + 4) mod 7"

definition setHours0 :: "Date \<Rightarrow> Date" where
  \<comment> \<open>\<open>setHours(0, 0, 0, 0)\<close>\<close>
  "setHours0 d = d\<lparr>msOfDay := 0\<rparr>"

definition localTime :: "Date \<Rightarrow> int" where
  "localTime d = MakeDay d * msPerDay + msOfDay d"

definition getTime :: "(int \<Rightarrow> int) \<Rightarrow> Date \<Rightarrow> int" where
  \<comment> \<open>\<open>getTime()\<close>: milliseconds since the epoch in UTC. The parameter \<open>tz\<close> is the host's
     time zone: the offset from UTC, in milliseconds, in effect at a given local time.\<close>
  "getTime tz d = localTime d - tz (localTime d)"

definition prevDay :: "Date \<Rightarrow> Date" where
  "prevDay d =
     (if 1 < dayOfMonth d then d\<lparr>dayOfMonth := dayOfMonth d - 1\<rparr>
      else if 1 < month d then
        d\<lparr>month := month d - 1, dayOfMonth := daysInMonth (year d) (month d - 1)\<rparr>
      else d\<lparr>year := year d - 1, month := 12, dayOfMonth := 31\<rparr>)"

definition nextDay :: "Date \<Rightarrow> Date" where
  "nextDay d =
     (if dayOfMonth d < daysInMonth (year d) (month d) then d\<lparr>dayOfMonth := dayOfMonth d + 1\<rparr>
      else if month d < 12 then d\<lparr>month := month d + 1, dayOfMonth := 1\<rparr>
      else d\<lparr>year := year d + 1, month := 1, dayOfMonth := 1\<rparr>)"

definition addDays :: "Date \<Rightarrow> int \<Rightarrow> Date" where
  \<comment> \<open>date-fns \<open>addDays\<close>: \<open>setDate(getDate() + amount)\<close>, the time of day is kept\<close>
  "addDays d amount =
     (if 0 \<le> amount then (nextDay ^^ nat amount) d else (prevDay ^^ nat (- amount)) d)"

definition digitChar :: "nat \<Rightarrow> char" where
  "digitChar n = ''0123456789'' ! n"

fun digits :: "nat \<Rightarrow> string" where
  "digits n = (if n < 10 then [digitChar n] else digits (n div 10) @ [digitChar (n mod 10)])"

declare digits.simps [simp del]

definition addLeadingZeros :: "nat \<Rightarrow> nat \<Rightarrow> string" where
  "addLeadingZeros n targetLength =
     replicate (targetLength - length (digits n)) (CHR ''0'') @ digits n"

definition format :: "Date \<Rightarrow> string" where
  \<comment> \<open>date-fns \<open>format(d, 'yyyy-MM-dd')\<close>; the token \<open>yyyy\<close> prints the year of the era,
     so the years 0, -1, ... (1 BC, 2 BC, ...) print as 0001, 0002, ...\<close>
  "format d =
     (let y = (if 0 < year d then year d else 1 - year d) in
      addLeadingZeros (nat y) 4 @ ''-'' @ addLeadingZeros (nat (month d)) 2 @ ''-'' @
      addLeadingZeros (nat (dayOfMonth d)) 2)"

definition isDigit :: "char \<Rightarrow> bool" where
  "isDigit c \<longleftrightarrow> CHR ''0'' \<le> c \<and> c \<le> CHR ''9''"

definition numVal :: "string \<Rightarrow> int" where
  "numVal s = foldl (\<lambda>a c. 10 * a + (int (of_char c) - 48)) 0 s"

definition parseISO :: "string \<Rightarrow> Date option" where
  \<comment> \<open>date-fns \<open>parseISO\<close> on a complete calendar date \<open>YYYY-MM-DD\<close>, the form in which the
     store keeps dates: local midnight of that date, or \<open>Invalid Date\<close> (\<open>None\<close>) when the
     month or the day is out of range. The other ISO 8601 forms are not modelled.\<close>
  "parseISO s =
     (if length s = 10 \<and> s ! 4 = CHR ''-'' \<and> s ! 7 = CHR ''-'' \<and>
         list_all isDigit (take 4 s @ take 2 (drop 5 s) @ drop 8 s) then
        let y = numVal (take 4 s); m = numVal (take 2 (drop 5 s)); d = numVal (drop 8 s) in
        if 1 \<le> m \<and> m \<le> 12 \<and> 1 \<le> d \<and> d \<le> daysInMonth y m
        then Some \<lparr>year = y, month = m, dayOfMonth = d, msOfDay = 0\<rparr> else None
      else None)"

definition twoDigits :: "nat \<Rightarrow> string" where
  "twoDigits n = [digitChar (n div 10), digitChar (n mod 10)]"

text \<open>
  The dates of the data model: calendar dates that \<open>format\<close> prints in the form
  \<open>YYYY-MM-DD\<close> with a four-digit year of the Common Era, and their calendar order.
\<close>

definition isoDate :: "Date \<Rightarrow> bool" where
  "isoDate d \<longleftrightarrow> validDate d \<and> 1 \<le> year d \<and> year d \<le> 9999"

definition dateLess :: "Date \<Rightarrow> Date \<Rightarrow> bool" where
  "dateLess a b \<longleftrightarrow> year a < year b \<or> (year a = year b \<and>
     (month a < month b \<or> (month a = month b \<and> dayOfMonth a < dayOfMonth b)))"

definition sameDay :: "Date \<Rightarrow> Date \<Rightarrow> bool" where
  "sameDay a b \<longleftrightarrow> year a = year b \<and> month a = month b \<and> dayOfMonth a = dayOfMonth b"


definition localMidnight :: "int \<Rightarrow> int \<Rightarrow> int \<Rightarrow> Date" where
  "localMidnight y m d = \<lparr>year = y, month = m, dayOfMonth = d, msOfDay = 0\<rparr>"


definition offsetAtMidnight :: "(int \<Rightarrow> int) \<Rightarrow> Date \<Rightarrow> int" where
  \<comment> \<open>the offset from UTC that the host's zone has at local midnight of the day of \<open>d\<close>\<close>
  "offsetAtMidnight tz d = tz (localTime (setHours0 d))"


section \<open>Records of the store\<close>

record Workout =
  id' :: string
  date :: string
  time :: string
  exerciseType :: string
  duration :: number
  intensity :: string
  caloriesBurned :: number
  recurring :: "bool option"
  recurrenceType :: "string option"
  recurrenceInterval :: "int option"
  recurrenceDays :: "int list option"
  recurrenceEnd :: "string option"

record Meal =
  id' :: string
  date :: string
  time :: string
  mealType :: string
  totalCalories :: number
  totalProtein :: number
  totalCarbs :: number
  totalFat :: number


section \<open>The recurrence evaluator (src/lib/recurrence.ts)\<close>

definition truthy :: "string option \<Rightarrow> bool" where
  \<comment> \<open>a string-valued field in a condition: \<open>undefined\<close>, \<open>null\<close> and \<open>''\<close> are falsy\<close>
  "truthy v = (case v of None \<Rightarrow> False | Some s \<Rightarrow> s \<noteq> [])"

definition isWorkoutOnDate :: "(int \<Rightarrow> int) \<Rightarrow> Workout \<Rightarrow> Date \<Rightarrow> bool" where
  "isWorkoutOnDate tz workout targetDate =
     (let targetDateStr = format targetDate in
      if Workout.date workout = targetDateStr then True
      else if recurring workout = Some True \<and> truthy (recurrenceType workout) \<and>
              recurrenceType workout \<noteq> Some ''none'' \<and> Workout.date workout \<le> targetDateStr then
        if (case recurrenceEnd workout of None \<Rightarrow> False
            | Some e \<Rightarrow> e \<noteq> [] \<and> targetDateStr > e) then False
        else if recurrenceType workout = Some ''daily'' then True
        else if recurrenceType workout = Some ''weekly'' then
          (case recurrenceDays workout of None \<Rightarrow> False
           | Some ds \<Rightarrow> getDay targetDate \<in> set ds)
        else if recurrenceType workout = Some ''custom'' then
          (case recurrenceInterval workout of None \<Rightarrow> False
           | Some n \<Rightarrow>
             if n = 0 \<or> n < 1 then False
             else (case parseISO (Workout.date workout) of None \<Rightarrow> False
               | Some start0 \<Rightarrow>
                 let start = setHours0 start0;
                     target = setHours0 targetDate;
                     diffMs = getTime tz target - getTime tz start;
                     diffDays = Math_round (jsDiv (of_int diffMs) (of_int msPerDay))
                 in diffDays \<ge> 0 \<and> jsRem diffDays n = 0))
        else False
      else False)"



section \<open>The streak (Dashboard)\<close>

definition hasActivity :: "(int \<Rightarrow> int) \<Rightarrow> Workout list \<Rightarrow> Meal list \<Rightarrow> Date \<Rightarrow> bool" where
  "hasActivity tz workouts meals checkDate =
     (let ds = format checkDate in
      list_ex (\<lambda>w. isWorkoutOnDate tz w checkDate) workouts \<or> list_ex (\<lambda>m. Meal.date m = ds) meals)"

text \<open>
  The loop \<open>while (true) { ... if (!hasActivity) break; streak++; checkDate = addDays(checkDate, -1) }\<close>.
  It has no bound, so it is a partial function: \<open>None\<close> is the loop that never leaves.
\<close>

partial_function (option) streakLoop ::
  "(int \<Rightarrow> int) \<Rightarrow> Workout list \<Rightarrow> Meal list \<Rightarrow> nat \<Rightarrow> Date \<Rightarrow> nat option" where
  "streakLoop tz workouts meals streak checkDate =
     (if \<not> hasActivity tz workouts meals checkDate then Some streak
      else streakLoop tz workouts meals (streak + 1) (addDays checkDate (- 1)))"

definition currentStreak :: "(int \<Rightarrow> int) \<Rightarrow> Workout list \<Rightarrow> Meal list \<Rightarrow> Date \<Rightarrow> nat option" where
  \<comment> \<open>\<open>today\<close> is the value of \<open>new Date()\<close>\<close>
  "currentStreak tz workouts meals today = streakLoop tz workouts meals 0 today"

definition daysBack :: "Date \<Rightarrow> nat \<Rightarrow> Date" where
  \<comment> \<open>the value of \<open>checkDate\<close> after \<open>i\<close> rounds of the loop\<close>
  "daysBack today i = ((\<lambda>d. addDays d (- 1)) ^^ i) today"


section \<open>The period aggregator (Dashboard)\<close>

text \<open>
  One entry of \<open>aggregateForPeriod\<close> per day. The display label of the entry (a localised
  day name) is not modelled, nor is the breakdown by exercise type that \<open>totalStats\<close>
  carries besides the totals.
\<close>

record DayStats =
  date :: Date
  caloriesIn :: number
  caloriesOut :: number
  balance :: number
  protein :: number
  carbs :: number
  fat :: number
  workoutMinutes :: number
  workoutCount :: number
  workouts :: "Workout list"

record Totals =
  caloriesIn :: number
  caloriesOut :: number
  protein :: number
  carbs :: number
  fat :: number
  workoutMinutes :: number
  workoutCount :: number

definition aggregateForPeriod ::
  "(int \<Rightarrow> int) \<Rightarrow> Date list \<Rightarrow> Workout list \<Rightarrow> Meal list \<Rightarrow> DayStats list" where
  "aggregateForPeriod = (\<lambda>tz dates workouts meals.
     map (\<lambda>day.
       let ds = format day;
           dayWorkouts = filter (\<lambda>w. isWorkoutOnDate tz w day) workouts;
           dayMeals = filter (\<lambda>m. Meal.date m = ds) meals;
           caloriesIn = foldl (\<lambda>s m. jsAdd s (totalCalories m)) 0 dayMeals;
           caloriesOut = foldl (\<lambda>s w. jsAdd s (caloriesBurned w)) 0 dayWorkouts;
           protein = foldl (\<lambda>s m. jsAdd s (totalProtein m)) 0 dayMeals;
           carbs = foldl (\<lambda>s m. jsAdd s (totalCarbs m)) 0 dayMeals;
           fat = foldl (\<lambda>s m. jsAdd s (totalFat m)) 0 dayMeals;
           workoutMinutes = foldl (\<lambda>s w. jsAdd s (duration w)) 0 dayWorkouts
       in \<lparr>DayStats.date = day,
           caloriesIn = caloriesIn,
           caloriesOut = caloriesOut,
           balance = jsSub caloriesIn caloriesOut,
           protein = protein,
           carbs = carbs,
           fat = fat,
           workoutMinutes = workoutMinutes,
           workoutCount = of_nat (length dayWorkouts),
           workouts = dayWorkouts\<rparr>) dates)"

definition totalStats :: "DayStats list \<Rightarrow> Totals" where
  "totalStats periodData =
     foldl (\<lambda>acc d.
       \<lparr>caloriesIn = jsAdd (Totals.caloriesIn acc) (DayStats.caloriesIn d),
        caloriesOut = jsAdd (Totals.caloriesOut acc) (DayStats.caloriesOut d),
        protein = jsAdd (Totals.protein acc) (DayStats.protein d),
        carbs = jsAdd (Totals.carbs acc) (DayStats.carbs d),
        fat = jsAdd (Totals.fat acc) (DayStats.fat d),
        workoutMinutes = jsAdd (Totals.workoutMinutes acc) (DayStats.workoutMinutes d),
        workoutCount = jsAdd (Totals.workoutCount acc) (DayStats.workoutCount d)\<rparr>)
       \<lparr>caloriesIn = 0, caloriesOut = 0, protein = 0, carbs = 0, fat = 0,
        workoutMinutes = 0, workoutCount = 0\<rparr>
       periodData"

definition periodBalance :: "Totals \<Rightarrow> number" where
  \<comment> \<open>the balance shown for the period: \<open>totalStats.caloriesIn - totalStats.caloriesOut\<close>\<close>
  "periodBalance ts = jsSub (Totals.caloriesIn ts) (Totals.caloriesOut ts)"



section \<open>Daily targets (lib/storage)\<close>

record UserProfile =
  age :: number
  weight :: number
  height :: number
  sex :: string
  activityLevel :: string
  goal :: string
  onboardingComplete :: bool

record DailyTargets =
  calories :: int
  protein :: int
  carbs :: int
  fat :: int

definition activityMultipliers :: "string \<rightharpoonup> number" where
  \<comment> \<open>the table of the multipliers, looked up with a key of the type \<open>ActivityLevel\<close>; any
     other key is modelled as a miss (\<open>undefined\<close>), for which \<open>|| 1.55\<close> stands in\<close>
  "activityMultipliers =
     [''sedentary'' \<mapsto> fl (12 / 10), ''light'' \<mapsto> fl (1375 / 1000), ''moderate'' \<mapsto> fl (155 / 100),
      ''active'' \<mapsto> fl (1725 / 1000), ''very_active'' \<mapsto> fl (19 / 10)]"

definition calculateDailyTargets :: "UserProfile \<Rightarrow> DailyTargets" where
  "calculateDailyTargets profile =
     (let bmr =
        (if sex profile = ''male''
         then jsAdd (jsSub (jsAdd (jsMul 10 (weight profile)) (jsMul (fl (625 / 100)) (height profile)))
                (jsMul 5 (age profile))) 5
         else jsSub (jsSub (jsAdd (jsMul 10 (weight profile)) (jsMul (fl (625 / 100)) (height profile)))
                (jsMul 5 (age profile))) 161);
          tdee0 = jsMul bmr (case activityMultipliers (activityLevel profile) of
                     Some m \<Rightarrow> m | None \<Rightarrow> fl (155 / 100));
          tdee = (if goal profile = ''lose_fat'' then jsSub tdee0 400
                  else if goal profile = ''gain_muscle'' then jsAdd tdee0 300 else tdee0);
          calories = Math_round tdee;
          pct = (if goal profile = ''lose_fat'' then (fl (35 / 100), fl (35 / 100), fl (30 / 100))
                 else if goal profile = ''gain_muscle'' then (fl (30 / 100), fl (45 / 100), fl (25 / 100))
                 else (fl (25 / 100), fl (45 / 100), fl (30 / 100)))
      in case pct of (proteinPct, carbsPct, fatPct) \<Rightarrow>
        \<lparr>calories = calories,
         protein = Math_round (jsDiv (jsMul (of_int calories) proteinPct) 4),
         carbs = Math_round (jsDiv (jsMul (of_int calories) carbsPct) 4),
         fat = Math_round (jsDiv (jsMul (of_int calories) fatPct) 9)\<rparr>)"

text \<open>
  The daily targets as the specification words them, in exact arithmetic: the Mifflin-St Jeor
  rate, times the activity multiplier, plus the goal adjustment, rounded; the macro grams
  from the goal's split at 4, 4 and 9 kcal per gram.
\<close>

definition mifflinStJeor :: "UserProfile \<Rightarrow> rat" where
  "mifflinStJeor p = 10 * weight p + (625 / 100) * height p - 5 * age p +
     (if sex p = ''male'' then 5 else - 161)"

definition activityMultiplier :: "string \<Rightarrow> rat" where
  "activityMultiplier level =
     (if level = ''sedentary'' then 12 / 10
      else if level = ''light'' then 1375 / 1000
      else if level = ''moderate'' then 155 / 100
      else if level = ''active'' then 1725 / 1000
      else if level = ''very_active'' then 19 / 10
      else 155 / 100)"

definition goalAdjustment :: "string \<Rightarrow> rat" where
  "goalAdjustment g = (if g = ''lose_fat'' then - 400 else if g = ''gain_muscle'' then 300 else 0)"

definition energyTarget :: "UserProfile \<Rightarrow> rat" where
  "energyTarget p = mifflinStJeor p * activityMultiplier (activityLevel p) + goalAdjustment (goal p)"

definition macroSplit :: "string \<Rightarrow> rat \<times> rat \<times> rat" where
  "macroSplit g = (if g = ''lose_fat'' then (35 / 100, 35 / 100, 30 / 100)
     else if g = ''gain_muscle'' then (30 / 100, 45 / 100, 25 / 100)
     else (25 / 100, 45 / 100, 30 / 100))"

definition dailyTargetsBySpec :: "UserProfile \<Rightarrow> DailyTargets" where
  "dailyTargetsBySpec p =
     (let calories = Math_round (energyTarget p) in
      case macroSplit (goal p) of (proteinPct, carbsPct, fatPct) \<Rightarrow>
        \<lparr>calories = calories,
         protein = Math_round (of_int calories * proteinPct / 4),
         carbs = Math_round (of_int calories * carbsPct / 4),
         fat = Math_round (of_int calories * fatPct / 9)\<rparr>)"

text \<open>
  The targets are rounded with \<open>Math.round\<close>. A quantity is clear of a half when it is
  at least \<open>1 / 2 ^ 30\<close> away from every half-integer, and a profile is free of ties when
  the four quantities that the exact formulas round are.
\<close>

definition clearOfHalf :: "rat \<Rightarrow> bool" where
  "clearOfHalf x \<longleftrightarrow>
     (let r = x + 1 / 2 - of_int (Math_round x) in 1 / 2 ^ 30 \<le> r \<and> r \<le> 1 - 1 / 2 ^ 30)"

definition tieFree :: "UserProfile \<Rightarrow> bool" where
  "tieFree p \<longleftrightarrow> clearOfHalf (energyTarget p) \<and>
     (let c = of_int (Math_round (energyTarget p)) in
      case macroSplit (goal p) of (proteinPct, carbsPct, fatPct) \<Rightarrow>
        clearOfHalf (c * proteinPct / 4) \<and> clearOfHalf (c * carbsPct / 4) \<and>
        clearOfHalf (c * fatPct / 9))"

definition activityLevels :: "string list" where
  \<comment> \<open>the values of the type \<open>ActivityLevel\<close>\<close>
  "activityLevels = [''sedentary'', ''light'', ''moderate'', ''active'', ''very_active'']"


section \<open>Examples\<close>

definition utc :: "int \<Rightarrow> int" where
  \<comment> \<open>a host whose local time is UTC\<close>
  "utc t = 0"

definition madrid :: "int \<Rightarrow> int" where
  \<comment> \<open>a host one hour ahead of UTC, two hours during the summer time of 2024\<close>
  "madrid t = (if 1711850400000 \<le> t \<and> t < 1729998000000 then 7200000 else 3600000)"

definition gymSession :: Workout where
  "gymSession = \<lparr>Workout.id' = ''w1'', date = ''2024-01-10'', time = ''07:30'',
     exerciseType = ''gym'', duration = 45, intensity = ''medium'', caloriesBurned = 300,
     recurring = Some False, recurrenceType = None, recurrenceInterval = None,
     recurrenceDays = None, recurrenceEnd = None\<rparr>"

definition dailyRun :: Workout where
  "dailyRun = gymSession\<lparr>Workout.date := ''2024-01-01'', exerciseType := ''running'',
     recurring := Some True, recurrenceType := Some ''daily'',
     recurrenceEnd := Some ''2024-01-05''\<rparr>"

definition lapsedRun :: Workout where
  "lapsedRun = gymSession\<lparr>Workout.date := ''2024-01-10'', exerciseType := ''running'',
     recurring := Some True, recurrenceType := Some ''daily'',
     recurrenceEnd := Some ''2024-01-05''\<rparr>"

definition apia :: "int \<Rightarrow> int" where
  \<comment> \<open>Pacific/Apia at the end of 2011: 10 hours behind UTC until the end of 29 December,
     14 hours ahead of it from 31 December on; 30 December did not take place\<close>
  "apia t = (if t < 1325203200000 then - 36000000 else 50400000)"

definition everyWeek :: Workout where
  "everyWeek = gymSession\<lparr>Workout.date := ''2024-03-25'', recurring := Some True,
     recurrenceType := Some ''custom'', recurrenceInterval := Some 7\<rparr>"

definition everyOtherDay :: Workout where
  "everyOtherDay = gymSession\<lparr>Workout.date := ''2011-12-29'', recurring := Some True,
     recurrenceType := Some ''custom'', recurrenceInterval := Some 2\<rparr>"

definition weeklyGym :: Workout where
  "weeklyGym = gymSession\<lparr>Workout.date := ''2024-01-01'', recurring := Some True,
     recurrenceType := Some ''weekly'', recurrenceDays := Some [1, 3, 5]\<rparr>"

definition everyDay :: Workout where
  "everyDay = gymSession\<lparr>Workout.date := ''2024-01-01'', recurring := Some True,
     recurrenceType := Some ''daily''\<rparr>"

definition breakfast :: Meal where
  "breakfast = \<lparr>Meal.id' = ''m1'', date = ''2024-01-09'', time = ''08:00'', mealType = ''breakfast'',
     totalCalories = 450, totalProtein = 20, totalCarbs = 60, totalFat = 12\<rparr>"

definition dinner :: Meal where
  "dinner = \<lparr>Meal.id' = ''m2'', date = ''2024-01-08'', time = ''20:30'', mealType = ''dinner'',
     totalCalories = 800, totalProtein = 45, totalCarbs = 70, totalFat = 30\<rparr>"

definition mealOn :: "string \<Rightarrow> Meal" where
  "mealOn day = \<lparr>Meal.id' = day, date = day, time = ''13:00'', mealType = ''lunch'',
     totalCalories = 2000, totalProtein = 100, totalCarbs = 200, totalFat = 60\<rparr>"

definition weekMeals :: "Meal list" where
  "weekMeals = map mealOn [''2024-01-01'', ''2024-01-02'', ''2024-01-03'', ''2024-01-04'',
     ''2024-01-05'', ''2024-01-06'', ''2024-01-07'']"

definition pasta :: Meal where
  \<comment> \<open>a meal entered with 2011.1 kcal\<close>
  "pasta = \<lparr>Meal.id' = ''m3'', date = ''2024-01-01'', time = ''14:00'', mealType = ''lunch'',
     totalCalories = fl (20111 / 10), totalProtein = 60, totalCarbs = 250, totalFat = 70\<rparr>"

definition paella :: Meal where
  \<comment> \<open>a meal entered with 2126.8 kcal\<close>
  "paella = \<lparr>Meal.id' = ''m4'', date = ''2024-01-02'', time = ''14:00'', mealType = ''lunch'',
     totalCalories = fl (10634 / 5), totalProtein = 60, totalCarbs = 250, totalFat = 70\<rparr>"

definition hike :: Workout where
  "hike = gymSession\<lparr>Workout.date := ''2024-01-01'', exerciseType := ''hiking'',
     caloriesBurned := 250\<rparr>"

definition twoDays :: "Date list" where
  "twoDays = [localMidnight 2024 1 1, localMidnight 2024 1 2]"


definition weekDates :: "Date list" where
  "weekDates = map (localMidnight 2024 1) [1, 2, 3, 4, 5, 6, 7]"

definition leanProfile :: UserProfile where
  "leanProfile = \<lparr>age = 25, weight = 70, height = 180, sex = ''male'',
     activityLevel = ''very_active'', goal = ''lose_fat'', onboardingComplete = True\<rparr>"

definition exampleProfile :: UserProfile where
  "exampleProfile = \<lparr>age = 30, weight = 80, height = 180, sex = ''male'',
     activityLevel = ''moderate'', goal = ''maintain'', onboardingComplete = True\<rparr>"


section \<open>Rounding to binary64\<close>

lemma two_powi_pos: "0 < (2::rat) powi e"
  by (simp add: zero_less_power_int)

lemma of_int_less_two_powi: "0 \<le> b \<Longrightarrow> p < 2 ^ nat b \<Longrightarrow> (of_int p :: rat) < 2 powi b"
proof -
  assume b: "0 \<le> b" and "p < 2 ^ nat b"
  then have "(of_int p :: rat) < of_int (2 ^ nat b)" by (simp only: of_int_less_iff)
  then show ?thesis using b by (simp add: power_int_def)
qed

lemma two_powi_le_of_int: "0 \<le> b \<Longrightarrow> 2 ^ nat b \<le> p \<Longrightarrow> 2 powi b \<le> (of_int p :: rat)"
proof -
  assume b: "0 \<le> b" and "2 ^ nat b \<le> p"
  then have "(of_int (2 ^ nat b) :: rat) \<le> of_int p" by (simp only: of_int_le_iff)
  then show ?thesis using b by (simp add: power_int_def)
qed

lemma ilog2_bounds:
  assumes "0 < x"
  shows "2 powi (ilog2 x) \<le> x \<and> x < 2 powi (ilog2 x + 1)"
proof -
  obtain p q where pq: "quotient_of x = (p, q)" by (cases "quotient_of x")
  then have q: "0 < q" and x: "x = of_int p / of_int q"
    by (auto simp: quotient_of_denom_pos quotient_of_div)
  with assms have p: "0 < p" by (simp add: zero_less_divide_iff)
  define bp where "bp = bitlen p"
  define bq where "bq = bitlen q"
  have bp1: "1 \<le> bp" and bq1: "1 \<le> bq"
    using p q bitlen_eq_zero_iff[of p] bitlen_eq_zero_iff[of q] bitlen_nonneg[of p] bitlen_nonneg[of q]
    unfolding bp_def bq_def by linarith+
  have pb: "2 powi (bp - 1) \<le> (of_int p :: rat)" "(of_int p :: rat) < 2 powi bp"
    using bitlen_bounds[OF p] bp1 unfolding bp_def[symmetric]
    by (auto intro: of_int_less_two_powi two_powi_le_of_int)
  have qb: "2 powi (bq - 1) \<le> (of_int q :: rat)" "(of_int q :: rat) < 2 powi bq"
    using bitlen_bounds[OF q] bq1 unfolding bq_def[symmetric]
    by (auto intro: of_int_less_two_powi two_powi_le_of_int)
  have qpos: "0 < (of_int q :: rat)" using q by simp
  have up: "x < 2 powi (bp - bq + 1)"
  proof -
    have "of_int p < (2::rat) powi bp" by (rule pb)
    also have "\<dots> = 2 powi (bp - bq + 1) * 2 powi (bq - 1)"
      by (simp add: power_int_add[symmetric])
    also have "\<dots> \<le> 2 powi (bp - bq + 1) * of_int q"
      using qb(1) two_powi_pos[of "bp - bq + 1"] by (simp add: mult_left_mono)
    finally show ?thesis using qpos unfolding x by (simp add: pos_divide_less_eq)
  qed
  have lo: "2 powi (bp - bq - 1) < x"
  proof -
    have "2 powi (bp - bq - 1) * of_int q < 2 powi (bp - bq - 1) * (2::rat) powi bq"
      using qb(2) two_powi_pos[of "bp - bq - 1"] by (simp add: mult_strict_left_mono)
    also have "\<dots> = 2 powi (bp - 1)"
      by (simp add: power_int_add[symmetric])
    also have "\<dots> \<le> of_int p" by (rule pb)
    finally show ?thesis using qpos unfolding x by (simp add: pos_less_divide_eq)
  qed
  show ?thesis
    using up lo pq unfolding ilog2_def bp_def bq_def
    by (auto simp: Let_def not_le intro: less_imp_le)
qed

lemma ilog2_less:
  assumes "0 < x" "x < 2 powi k"
  shows "ilog2 x < k"
proof (rule ccontr)
  assume "\<not> ilog2 x < k"
  then have "k \<le> ilog2 x" by simp
  then have "(2::rat) powi k \<le> 2 powi (ilog2 x)" by (simp add: power_int_increasing)
  with ilog2_bounds[OF assms(1)] assms(2) show False by simp
qed

lemma ilog2_unique:
  assumes "0 < x" "2 powi k \<le> x" "x < 2 powi (k + 1)"
  shows "ilog2 x = k"
proof -
  have "ilog2 x < k + 1" by (rule ilog2_less) fact+
  moreover have "k < ilog2 x + 1"
  proof (rule ccontr)
    assume "\<not> k < ilog2 x + 1"
    then have "ilog2 x + 1 \<le> k" by simp
    then have "(2::rat) powi (ilog2 x + 1) \<le> 2 powi k" by (simp add: power_int_increasing)
    with ilog2_bounds[OF assms(1)] assms(2) show False by simp
  qed
  ultimately show ?thesis by simp
qed

lemma roundEven_error: "\<bar>of_int (roundEven y) - y\<bar> \<le> 1 / 2"
proof -
  have "of_int \<lfloor>y\<rfloor> \<le> y" "y < of_int \<lfloor>y\<rfloor> + 1" by linarith+
  then show ?thesis unfolding roundEven_def Let_def by (auto simp: abs_le_iff)
qed

lemma roundEven_of_int: "roundEven (of_int m) = m"
  by (simp add: roundEven_def)

lemma fl_error:
  "\<bar>fl x - x\<bar> \<le> \<bar>x\<bar> / 2 ^ 53"
proof (cases "x = 0")
  case True
  then show ?thesis by (simp add: fl_def)
next
  case False
  define e where "e = ilog2 \<bar>x\<bar> - 52"
  define s where "s = (2::rat) powi e"
  have s: "0 < s" unfolding s_def by (rule two_powi_pos)
  from False have "0 < \<bar>x\<bar>" by simp
  from ilog2_bounds[OF this] have "2 powi (e + 52) \<le> \<bar>x\<bar>" by (simp add: e_def)
  then have sx: "s * 2 ^ 52 \<le> \<bar>x\<bar>" by (simp add: s_def power_int_add)
  have "fl x - x = (of_int (roundEven (x / s)) - x / s) * s"
    using False s by (simp add: fl_def e_def s_def Let_def field_simps)
  then have "\<bar>fl x - x\<bar> = \<bar>of_int (roundEven (x / s)) - x / s\<bar> * s"
    using s by (simp add: abs_mult)
  also have "\<dots> \<le> (1 / 2) * s"
    using roundEven_error[of "x / s"] s by (simp add: mult_right_mono)
  also have "\<dots> \<le> \<bar>x\<bar> / 2 ^ 53" using sx by simp
  finally show ?thesis .
qed

lemma fl_eq:
  assumes "2 powi (e + 52) \<le> \<bar>x\<bar>" "\<bar>x\<bar> < 2 powi (e + 53)"
  shows "fl x = of_int (roundEven (x / 2 powi e)) * 2 powi e"
proof -
  have "0 < (2::rat) powi (e + 52)" by (rule two_powi_pos)
  with assms(1) have pos: "0 < \<bar>x\<bar>" by linarith
  have "ilog2 \<bar>x\<bar> = e + 52"
    by (rule ilog2_unique) (use pos assms in \<open>simp_all add: add.commute add.left_commute\<close>)
  with pos show ?thesis by (simp add: fl_def Let_def)
qed

lemma fl_exact:
  assumes "\<bar>m\<bar> < 2 ^ 53"
  shows "fl (of_int m * 2 powi k) = of_int m * 2 powi k"
proof (cases "m = 0")
  case True
  then show ?thesis by (simp add: fl_def)
next
  case False
  define x :: rat where "x = of_int m * 2 powi k"
  define e where "e = ilog2 \<bar>x\<bar> - 52"
  have p: "0 < (2::rat) powi k" by (rule two_powi_pos)
  from False p have x0: "x \<noteq> 0" "0 < \<bar>x\<bar>" by (simp_all add: x_def)
  have "(of_int \<bar>m\<bar> :: rat) < of_int (2 ^ 53)" using assms by (simp only: of_int_less_iff)
  then have "\<bar>of_int m :: rat\<bar> < 2 ^ 53" by simp
  then have "\<bar>x\<bar> < 2 ^ 53 * 2 powi k"
    using p by (simp add: x_def abs_mult)
  also have "\<dots> = 2 powi (53 + k)" by (simp add: power_int_add)
  finally have "ilog2 \<bar>x\<bar> < 53 + k" by (rule ilog2_less[OF x0(2)])
  then have e: "e \<le> k" by (simp add: e_def)
  define j where "j = nat (k - e)"
  have kj: "k = e + int j" using e by (simp add: j_def)
  have "x / 2 powi e = of_int (m * 2 ^ j)"
    by (simp add: x_def kj power_int_add)
  then have "fl x = of_int (m * 2 ^ j) * 2 powi e"
    using x0 by (simp add: fl_def e_def Let_def roundEven_of_int del: of_int_mult of_int_power)
  also have "\<dots> = x"
    by (simp add: x_def kj power_int_add)
  finally show ?thesis by (simp add: x_def)
qed

lemma fl_half_integer:
  assumes "\<bar>of_int h / 2 :: rat\<bar> < 2 ^ 52"
  shows "fl (of_int h / 2) = of_int h / 2"
proof (cases "h = 0")
  case True
  then show ?thesis by (simp add: fl_def)
next
  case False
  define x :: rat where "x = of_int h / 2"
  define e where "e = ilog2 \<bar>x\<bar> - 52"
  from False have x0: "x \<noteq> 0" "0 < \<bar>x\<bar>" by (simp_all add: x_def)
  have "\<bar>x\<bar> < 2 powi 52" using assms by (simp add: x_def)
  from ilog2_less[OF x0(2) this] have e: "e \<le> - 1" by (simp add: e_def)
  define k where "k = nat (- e - 1)"
  have ek: "e = - int k - 1" using e by (simp add: k_def)
  have "x / 2 powi e = of_int (h * 2 ^ k)"
    by (simp add: x_def ek power_int_diff power_int_minus field_simps)
  then have "fl x = of_int (h * 2 ^ k) * 2 powi e"
    using x0 by (simp add: fl_def e_def Let_def roundEven_of_int del: of_int_mult of_int_power)
  also have "\<dots> = x"
    by (simp add: x_def ek power_int_diff power_int_minus field_simps)
  finally show ?thesis by (simp add: x_def)
qed

lemma fl_numeral: "numeral n < (2 ^ 53 :: int) \<Longrightarrow> fl (numeral n) = numeral n"
  using fl_exact[of "numeral n" 0] by simp

lemma fl_Ints:
  assumes "x \<in> \<int>" "\<bar>x\<bar> \<le> 2 ^ 53"
  shows "fl x = x"
proof -
  from assms(1) obtain m where m: "x = of_int m" by (auto elim: Ints_cases)
  show ?thesis
  proof (cases "\<bar>x\<bar> = 2 ^ 53")
    case True
    then have "x = 2 ^ 53 \<or> x = - (2 ^ 53)" by (auto simp: abs_if split: if_splits)
    then show ?thesis
      using fl_exact[of 1 53] fl_exact[of "- 1" 53] by auto
  next
    case False
    with assms(2) have "\<bar>of_int m :: rat\<bar> < 2 ^ 53" by (simp add: m)
    then have "(of_int \<bar>m\<bar> :: rat) < of_int (2 ^ 53)" by simp
    then have "\<bar>m\<bar> < 2 ^ 53" by (simp only: of_int_less_iff)
    from fl_exact[OF this, of 0] show ?thesis by (simp add: m)
  qed
qed

text \<open>
  \<open>Math.round\<close> of a quotient of a number by a positive integer, computed in binary64, is
  the exact quotient rounded half up, as long as the dividend is below \<open>2 ^ 52\<close> in
  magnitude: the rounding error of the division is too small to carry the quotient across a
  half-integer.
\<close>

lemma Math_round_jsDiv_binary64:
  fixes n :: int
  assumes n: "0 < n" and x: "binary64 x" and b: "\<bar>x\<bar> < 2 ^ 52"
  shows "Math_round (jsDiv x (of_int n)) = \<lfloor>x / of_int n + 1 / 2\<rfloor>"
proof (cases "x = 0")
  case True
  have "\<lfloor>1 / 2 :: rat\<rfloor> = 0" by (rule floor_unique) simp_all
  with True show ?thesis by (simp add: jsDiv_def fl_def Math_round_def)
next
  case False
  define e where "e = ilog2 \<bar>x\<bar> - 52"
  define m where "m = roundEven (x / 2 powi e)"
  define g where "g = (2::rat) powi e"
  have g: "0 < g" unfolding g_def by (rule two_powi_pos)
  have xm: "x = of_int m * g"
    using x False unfolding binary64_def by (simp add: fl_def Let_def e_def m_def g_def)
  from False have xpos: "0 < \<bar>x\<bar>" by simp
  have "\<bar>x\<bar> < 2 powi 52" using b by simp
  from ilog2_less[OF xpos this] have e: "e \<le> - 1" by (simp add: e_def)
  define c :: int where "c = 2 ^ nat (- e - 1)"
  have cg: "of_int c * (2 * g) = (1::rat)"
  proof -
    have "(of_int c :: rat) = 2 powi (- e - 1)"
      using e by (simp add: c_def power_int_def)
    then have "of_int c * (2 * g) = (2::rat) powi (- e - 1) * 2 powi (e + 1)"
      by (simp add: g_def power_int_add)
    also have "\<dots> = 1" by (simp add: power_int_add[symmetric])
    finally show ?thesis .
  qed
  have xb: "\<bar>x\<bar> < g * 2 ^ 53"
  proof -
    from ilog2_bounds[OF xpos] have "\<bar>x\<bar> < 2 powi (e + 53)"
      by (simp add: e_def add.commute)
    then show ?thesis by (simp add: g_def power_int_add)
  qed
  have nr: "0 < (of_int n :: rat)" using n by simp
  define q :: rat where "q = x / of_int n"
  define k where "k = \<lfloor>q + 1 / 2\<rfloor>"
  have k1: "of_int k - 1 / 2 \<le> q" and k2: "q < of_int k + 1 / 2"
    unfolding k_def by linarith+
  have qx: "\<bar>q\<bar> \<le> \<bar>x\<bar>"
  proof -
    have "(1::rat) \<le> of_int n" using n by simp
    then have "\<bar>x\<bar> / of_int n \<le> \<bar>x\<bar> / 1"
      by (intro divide_left_mono) simp_all
    then show ?thesis using nr by (simp add: q_def abs_divide)
  qed
  have err: "\<bar>fl q - q\<bar> < g / of_int n"
  proof -
    have "\<bar>fl q - q\<bar> \<le> \<bar>q\<bar> / 2 ^ 53" by (rule fl_error)
    also have "\<dots> = \<bar>x\<bar> / (of_int n * 2 ^ 53)"
      using nr by (simp add: q_def abs_divide)
    also have "\<dots> < g * 2 ^ 53 / (of_int n * 2 ^ 53)"
      using xb nr by (intro divide_strict_right_mono) simp_all
    also have "\<dots> = g / of_int n" by simp
    finally show ?thesis .
  qed
  text \<open>the distance of \<open>q\<close> from a half-integer is a multiple of \<open>g / n\<close>\<close>
  have grid: "(q - of_int j / 2) * of_int n = of_int (m - j * n * c) * g" for j :: int
  proof -
    have "(q - of_int j / 2) * of_int n = x - of_int j * of_int n / 2"
      using nr by (simp add: q_def field_simps)
    also have "\<dots> = of_int m * g - of_int j * of_int n * (of_int c * (2 * g)) / 2"
      by (simp add: xm cg)
    also have "\<dots> = of_int (m - j * n * c) * g"
      by (simp add: algebra_simps)
    finally show ?thesis .
  qed
  have "of_int k - 1 / 2 \<le> fl q \<and> fl q < of_int k + 1 / 2"
  proof (cases "q = of_int k - 1 / 2")
    case True
    then have qh: "q = of_int (2 * k - 1) / 2" by simp
    have "fl q = q" unfolding qh
      by (rule fl_half_integer) (use qx b qh in simp)
    with k1 k2 show ?thesis by simp
  next
    case False
    with k1 have lo: "of_int k - 1 / 2 < q" by simp
    have lo': "g / of_int n \<le> q - (of_int k - 1 / 2)"
    proof -
      have "0 < (q - of_int (2 * k - 1) / 2) * of_int n" using lo nr by simp
      then have "0 < of_int (m - (2 * k - 1) * n * c) * g" by (simp only: grid)
      with g have "(0::rat) < of_int (m - (2 * k - 1) * n * c)" by (simp add: zero_less_mult_iff)
      then have "0 < m - (2 * k - 1) * n * c" by (simp only: of_int_0_less_iff)
      then have "1 \<le> m - (2 * k - 1) * n * c" by simp
      then have "(1::rat) \<le> of_int (m - (2 * k - 1) * n * c)" by (simp only: of_int_1_le_iff)
      with g have "g \<le> of_int (m - (2 * k - 1) * n * c) * g" by simp
      also have "\<dots> = (q - of_int (2 * k - 1) / 2) * of_int n" by (simp only: grid)
      also have "\<dots> = (q - (of_int k - 1 / 2)) * of_int n" by (simp add: field_simps)
      finally show ?thesis using nr by (simp only: pos_divide_le_eq)
    qed
    have hi': "g / of_int n \<le> (of_int k + 1 / 2) - q"
    proof -
      have "(q - of_int (2 * k + 1) / 2) * of_int n < 0"
        using k2 nr by (simp add: mult_less_0_iff)
      then have "of_int (m - (2 * k + 1) * n * c) * g < 0" by (simp only: grid)
      with g have "(of_int (m - (2 * k + 1) * n * c) :: rat) < 0" by (simp add: mult_less_0_iff)
      then have "m - (2 * k + 1) * n * c < 0" by (simp only: of_int_less_0_iff)
      then have "m - (2 * k + 1) * n * c \<le> - 1" by simp
      then have "(of_int (m - (2 * k + 1) * n * c) :: rat) \<le> of_int (- 1)"
        by (simp only: of_int_le_iff)
      then have "(of_int (m - (2 * k + 1) * n * c) :: rat) \<le> - 1" by simp
      with g have "of_int (m - (2 * k + 1) * n * c) * g \<le> - 1 * g"
        by (intro mult_right_mono) simp_all
      then have "(q - of_int (2 * k + 1) / 2) * of_int n \<le> - 1 * g" by (simp only: grid)
      then have "(q - of_int (2 * k + 1) / 2) * of_int n \<le> - g" by simp
      moreover have "(q - of_int (2 * k + 1) / 2) * of_int n = - ((of_int k + 1 / 2 - q) * of_int n)"
        by (simp add: field_simps)
      ultimately have "g \<le> (of_int k + 1 / 2 - q) * of_int n" by simp
      then show ?thesis using nr by (simp only: pos_divide_le_eq)
    qed
    from err lo' hi' show ?thesis by (simp add: abs_less_iff)
  qed
  then have "\<lfloor>fl q + 1 / 2\<rfloor> = k"
    by (intro floor_unique) simp_all
  then show ?thesis by (simp add: Math_round_def jsDiv_def q_def k_def)
qed

lemma Math_round_jsDiv:
  fixes a n :: int
  assumes n: "0 < n" and a: "\<bar>a\<bar> < 2 ^ 52"
  shows "Math_round (jsDiv (of_int a) (of_int n)) = \<lfloor>(of_int a / of_int n :: rat) + 1 / 2\<rfloor>"
proof -
  from a have "\<bar>a\<bar> < 2 ^ 53" by simp
  from fl_exact[OF this, of 0] have x: "binary64 (of_int a)" by (simp add: binary64_def)
  have "(of_int \<bar>a\<bar> :: rat) < of_int (2 ^ 52)" using a by (simp only: of_int_less_iff)
  then have "\<bar>of_int a :: rat\<bar> < 2 ^ 52" by simp
  from Math_round_jsDiv_binary64[OF n x this] show ?thesis .
qed

text \<open>Evaluation of the rounding functions on numerals.\<close>

lemma roundEven_div:
  fixes A B :: int
  assumes B: "0 < B"
  shows "roundEven (of_int A / of_int B) =
     (if 2 * (A mod B) < B then A div B else if B < 2 * (A mod B) then A div B + 1
      else if even (A div B) then A div B else A div B + 1)"
proof -
  have Br: "0 < (of_int B :: rat)" using B by simp
  have f: "\<lfloor>(of_int A / of_int B :: rat)\<rfloor> = A div B"
    by (simp add: floor_divide_of_int_eq)
  have "(of_int A :: rat) = of_int (A div B * B + A mod B)" by simp
  also have "\<dots> = of_int (A div B) * of_int B + of_int (A mod B)"
    by (simp only: of_int_add of_int_mult)
  finally have r: "(of_int A / of_int B :: rat) - of_int (A div B) = of_int (A mod B) / of_int B"
    using Br by (simp add: field_simps)
  have "(of_int (A mod B) / of_int B :: rat) < 1 / 2 \<longleftrightarrow> (of_int (2 * (A mod B)) :: rat) < of_int B"
    using Br by (simp add: field_simps)
  then have c1: "(of_int (A mod B) / of_int B :: rat) < 1 / 2 \<longleftrightarrow> 2 * (A mod B) < B"
    by (simp only: of_int_less_iff)
  have "(1 / 2 :: rat) < of_int (A mod B) / of_int B \<longleftrightarrow> (of_int B :: rat) < of_int (2 * (A mod B))"
    using Br by (simp add: field_simps)
  then have c2: "(1 / 2 :: rat) < of_int (A mod B) / of_int B \<longleftrightarrow> B < 2 * (A mod B)"
    by (simp only: of_int_less_iff)
  show ?thesis
    unfolding roundEven_def Let_def f r c1 c2 ..
qed

lemma roundEven_eval:
  "roundEven (numeral a / numeral b) =
     (if 2 * (numeral a mod numeral b) < (numeral b :: int) then numeral a div numeral b
      else if (numeral b :: int) < 2 * (numeral a mod numeral b) then numeral a div numeral b + 1
      else if even (numeral a div numeral b :: int) then numeral a div numeral b
      else numeral a div numeral b + 1)"
  using roundEven_div[of "numeral b" "numeral a"] by simp

lemma roundEven_numeral: "roundEven (numeral n) = numeral n"
  using roundEven_of_int[of "numeral n"] by simp

lemmas fl_eval = power_int_minus roundEven_eval roundEven_numeral

lemma Math_round_numeral [simp]: "Math_round (numeral n) = numeral n"
proof -
  have "\<lfloor>(of_int k :: rat) + 1 / 2\<rfloor> = k" for k
    by (rule floor_unique) simp_all
  from this[of "numeral n"] show ?thesis by (simp add: Math_round_def)
qed

lemma Math_round_fraction:
  "Math_round (numeral a / numeral b) = (2 * numeral a + numeral b) div (2 * numeral b)"
proof -
  have "(numeral a / numeral b :: rat) + 1 / 2 =
      of_int (2 * numeral a + numeral b) / of_int (2 * numeral b)"
    by (simp add: field_simps)
  then show ?thesis
    unfolding Math_round_def by (simp only: floor_divide_of_int_eq)
qed


section \<open>Formatted dates and their order\<close>


lemma of_char_digitChar: "n < 10 \<Longrightarrow> of_char (digitChar n) = (48 + n :: nat)"
proof -
  assume "n < 10"
  then consider "n = 0" | "n = 1" | "n = 2" | "n = 3" | "n = 4" | "n = 5" | "n = 6" | "n = 7"
    | "n = 8" | "n = 9" by atomize_elim arith
  then show ?thesis by cases (simp_all add: digitChar_def)
qed

lemma digitChar_less: "a < 10 \<Longrightarrow> b < 10 \<Longrightarrow> digitChar a < digitChar b \<longleftrightarrow> a < b"
  by (simp add: less_char_def of_char_digitChar)

lemma digitChar_eq: "a < 10 \<Longrightarrow> b < 10 \<Longrightarrow> digitChar a = digitChar b \<longleftrightarrow> a = b"
proof
  assume "a < 10" "b < 10" "digitChar a = digitChar b"
  then have "(of_char (digitChar a) :: nat) = of_char (digitChar b)" by simp
  with \<open>a < 10\<close> \<open>b < 10\<close> show "a = b" by (simp add: of_char_digitChar)
qed simp

lemma digitChar_0: "digitChar 0 = CHR ''0''"
  by (simp add: digitChar_def)

lemma digits1: "n < 10 \<Longrightarrow> digits n = [digitChar n]"
  by (subst digits.simps) simp

lemma digits2: "10 \<le> n \<Longrightarrow> n < 100 \<Longrightarrow> digits n = twoDigits n"
  by (subst digits.simps) (simp add: digits1 twoDigits_def)

lemma mod_100_eq: "(n::nat) mod 100 = 10 * (n div 10 mod 10) + n mod 10"
  using mod_mult2_eq[of n 10 10] by simp

lemma div_100_eq: "(n::nat) div 100 = n div 10 div 10"
  using div_mult2_eq[of n 10 10] by simp

lemma less_by_100:
  "(a::nat) < b \<longleftrightarrow> a div 100 < b div 100 \<or> (a div 100 = b div 100 \<and> a mod 100 < b mod 100)"
proof -
  have "a = 100 * (a div 100) + a mod 100" "b = 100 * (b div 100) + b mod 100" by simp_all
  moreover have "a mod 100 < 100" "b mod 100 < 100" by simp_all
  ultimately show ?thesis by linarith
qed

lemma less_by_10:
  "(a::nat) < b \<longleftrightarrow> a div 10 < b div 10 \<or> (a div 10 = b div 10 \<and> a mod 10 < b mod 10)"
proof -
  have "a = 10 * (a div 10) + a mod 10" "b = 10 * (b div 10) + b mod 10" by simp_all
  moreover have "a mod 10 < 10" "b mod 10 < 10" by simp_all
  ultimately show ?thesis by linarith
qed

lemma eq_by_10: "(a::nat) = b \<longleftrightarrow> a div 10 = b div 10 \<and> a mod 10 = b mod 10"
  by (metis div_mult_mod_eq)

lemma eq_by_100: "(a::nat) = b \<longleftrightarrow> a div 100 = b div 100 \<and> a mod 100 = b mod 100"
  by (metis div_mult_mod_eq)

lemma digits3: "100 \<le> n \<Longrightarrow> n < 1000 \<Longrightarrow>
   digits n = digitChar (n div 100) # twoDigits (n mod 100)"
  by (subst digits.simps) (simp add: digits2 twoDigits_def mod_100_eq div_100_eq)

lemma digits4: "1000 \<le> n \<Longrightarrow> n < 10000 \<Longrightarrow>
   digits n = twoDigits (n div 100) @ twoDigits (n mod 100)"
  by (subst digits.simps) (simp add: digits3 twoDigits_def mod_100_eq div_100_eq)

lemma replicate_small: "replicate 2 c = [c, c]" "replicate 3 c = [c, c, c]"
  by (simp_all add: numeral_2_eq_2 numeral_3_eq_3)

lemma addLeadingZeros_2: "n < 100 \<Longrightarrow> addLeadingZeros n 2 = twoDigits n"
proof (cases "n < 10")
  case True
  then show ?thesis by (simp add: addLeadingZeros_def digits1 twoDigits_def digitChar_0 replicate_small)
next
  case False
  assume "n < 100"
  with False show ?thesis by (simp add: addLeadingZeros_def digits2 twoDigits_def)
qed

lemma addLeadingZeros_4:
  assumes "n < 10000"
  shows "addLeadingZeros n 4 = twoDigits (n div 100) @ twoDigits (n mod 100)"
proof -
  consider "n < 10" | "10 \<le> n" "n < 100" | "100 \<le> n" "n < 1000" | "1000 \<le> n"
    by atomize_elim arith
  then show ?thesis
  proof cases
    case 1
    then show ?thesis
      by (simp add: addLeadingZeros_def digits1 twoDigits_def digitChar_0 replicate_small)
  next
    case 2
    then show ?thesis
      by (simp add: addLeadingZeros_def digits2 twoDigits_def digitChar_0 replicate_small)
  next
    case 3
    then have "n div 100 div 10 = 0" "n div 100 mod 10 = n div 100" by simp_all
    with 3 show ?thesis
      by (simp add: addLeadingZeros_def digits3 twoDigits_def digitChar_0 replicate_small)
  next
    case 4
    with assms show ?thesis
      by (simp add: addLeadingZeros_def digits4 twoDigits_def)
  qed
qed

lemma twoDigits_less:
  assumes "a < 100" "b < 100"
  shows "twoDigits a @ s < twoDigits b @ t \<longleftrightarrow> a < b \<or> (a = b \<and> s < t)"
proof -
  have d: "a div 10 < 10" "a mod 10 < 10" "b div 10 < 10" "b mod 10 < 10"
    using assms by simp_all
  show ?thesis
    unfolding less_by_10[of a b] eq_by_10[of a b]
    by (auto simp: twoDigits_def digitChar_less[OF d(1) d(3)] digitChar_less[OF d(2) d(4)]
        digitChar_eq[OF d(1) d(3)] digitChar_eq[OF d(2) d(4)])
qed

lemma twoDigits_eq:
  assumes "a < 100" "b < 100"
  shows "twoDigits a @ s = twoDigits b @ t \<longleftrightarrow> a = b \<and> s = t"
proof -
  have d: "a div 10 < 10" "a mod 10 < 10" "b div 10 < 10" "b mod 10 < 10"
    using assms by simp_all
  show ?thesis
    unfolding eq_by_10[of a b]
    by (auto simp: twoDigits_def digitChar_eq[OF d(1) d(3)] digitChar_eq[OF d(2) d(4)])
qed

lemma twoDigits_less_iff: "a < 100 \<Longrightarrow> b < 100 \<Longrightarrow> twoDigits a < twoDigits b \<longleftrightarrow> a < b"
  using twoDigits_less[of a b "[]" "[]"] by simp

lemma twoDigits_eq_iff: "a < 100 \<Longrightarrow> b < 100 \<Longrightarrow> twoDigits a = twoDigits b \<longleftrightarrow> a = b"
  using twoDigits_eq[of a b "[]" "[]"] by simp

lemma format_iso:
  assumes "isoDate d"
  shows "format d = twoDigits (nat (year d) div 100) @ twoDigits (nat (year d) mod 100) @
     CHR ''-'' # twoDigits (nat (month d)) @ CHR ''-'' # twoDigits (nat (dayOfMonth d)) @ []"
proof -
  from assms have y: "nat (year d) < 10000" "0 < year d"
    and m: "nat (month d) < 100" and dd: "nat (dayOfMonth d) < 100"
    by (auto simp: isoDate_def validDate_def daysInMonth_def split: if_splits)
  then show ?thesis
    by (simp add: format_def addLeadingZeros_4 addLeadingZeros_2)
qed

text \<open>
  On the dates of the data model the order of the formatted strings is the calendar order.
\<close>

lemma format_less_iff:
  assumes "isoDate a" "isoDate b"
  shows "format a < format b \<longleftrightarrow> dateLess a b"
proof -
  from assms have ya: "nat (year a) < 10000" "0 < year a" and yb: "nat (year b) < 10000" "0 < year b"
    and ma: "nat (month a) < 100" "0 < month a" and mb: "nat (month b) < 100" "0 < month b"
    and da: "nat (dayOfMonth a) < 100" "0 < dayOfMonth a"
    and db: "nat (dayOfMonth b) < 100" "0 < dayOfMonth b"
    by (auto simp: isoDate_def validDate_def daysInMonth_def split: if_splits)
  have h: "nat (year a) div 100 < 100" "nat (year b) div 100 < 100"
    "nat (year a) mod 100 < 100" "nat (year b) mod 100 < 100"
    using ya yb by simp_all
  have yl: "year a < year b \<longleftrightarrow> nat (year a) div 100 < nat (year b) div 100 \<or>
     (nat (year a) div 100 = nat (year b) div 100 \<and> nat (year a) mod 100 < nat (year b) mod 100)"
    using ya yb less_by_100[of "nat (year a)" "nat (year b)"] eq_by_100[of "nat (year a)" "nat (year b)"]
    by auto
  have ye: "year a = year b \<longleftrightarrow>
     nat (year a) div 100 = nat (year b) div 100 \<and> nat (year a) mod 100 = nat (year b) mod 100"
    using ya yb less_by_100[of "nat (year a)" "nat (year b)"] eq_by_100[of "nat (year a)" "nat (year b)"]
    by auto
  have ml: "month a < month b \<longleftrightarrow> nat (month a) < nat (month b)"
    and me: "month a = month b \<longleftrightarrow> nat (month a) = nat (month b)"
    and dl: "dayOfMonth a < dayOfMonth b \<longleftrightarrow> nat (dayOfMonth a) < nat (dayOfMonth b)"
    using ma mb da db by auto
  show ?thesis
    unfolding format_iso[OF assms(1)] format_iso[OF assms(2)] dateLess_def
      twoDigits_less[OF h(1) h(2)] twoDigits_less[OF h(3) h(4)] yl ye ml me dl
    using da db by (auto simp: twoDigits_less[OF ma(1) mb(1)] twoDigits_less_iff[OF da(1) db(1)])
qed

lemma format_eq_iff:
  assumes "isoDate a" "isoDate b"
  shows "format a = format b \<longleftrightarrow> sameDay a b"
proof -
  from assms have ya: "nat (year a) < 10000" "0 < year a" and yb: "nat (year b) < 10000" "0 < year b"
    and ma: "nat (month a) < 100" "0 < month a" and mb: "nat (month b) < 100" "0 < month b"
    and da: "nat (dayOfMonth a) < 100" "0 < dayOfMonth a"
    and db: "nat (dayOfMonth b) < 100" "0 < dayOfMonth b"
    by (auto simp: isoDate_def validDate_def daysInMonth_def split: if_splits)
  have h: "nat (year a) div 100 < 100" "nat (year b) div 100 < 100"
    "nat (year a) mod 100 < 100" "nat (year b) mod 100 < 100"
    using ya yb by simp_all
  have ye: "year a = year b \<longleftrightarrow>
     nat (year a) div 100 = nat (year b) div 100 \<and> nat (year a) mod 100 = nat (year b) mod 100"
    using ya yb less_by_100[of "nat (year a)" "nat (year b)"] eq_by_100[of "nat (year a)" "nat (year b)"]
    by auto
  have me: "month a = month b \<longleftrightarrow> nat (month a) = nat (month b)"
    and de: "dayOfMonth a = dayOfMonth b \<longleftrightarrow> nat (dayOfMonth a) = nat (dayOfMonth b)"
    using ma mb da db by auto
  show ?thesis
    unfolding format_iso[OF assms(1)] format_iso[OF assms(2)] sameDay_def
      twoDigits_eq[OF h(1) h(2)] twoDigits_eq[OF h(3) h(4)] ye me de
    by (simp add: twoDigits_eq[OF ma(1) mb(1)] twoDigits_eq_iff[OF da(1) db(1)])
qed

lemma format_le_iff:
  assumes "isoDate a" "isoDate b"
  shows "format a \<le> format b \<longleftrightarrow> \<not> dateLess b a"
  using format_less_iff[OF assms(2) assms(1)] by (simp add: not_less[symmetric])

lemma format_not_empty: "isoDate e \<Longrightarrow> format e \<noteq> []"
  by (simp add: format_iso twoDigits_def)

lemma dateLess_cases: "dateLess a b \<or> sameDay a b \<or> dateLess b a"
  by (auto simp: dateLess_def sameDay_def)

lemma dateLess_asym: "dateLess a b \<Longrightarrow> \<not> dateLess b a" "dateLess a b \<Longrightarrow> \<not> sameDay a b"
  by (auto simp: dateLess_def sameDay_def)

lemma dateLess_trans: "dateLess a b \<Longrightarrow> dateLess b c \<Longrightarrow> dateLess a c"
  by (auto simp: dateLess_def)


lemma isoDate_imp_valid: "isoDate d \<Longrightarrow> validDate d \<and> \<bar>year d\<bar> \<le> 9999"
  by (auto simp: isoDate_def)

lemma isoDate_localMidnight:
  "isoDate (localMidnight y m d) \<longleftrightarrow>
     1 \<le> y \<and> y \<le> 9999 \<and> 1 \<le> m \<and> m \<le> 12 \<and> 1 \<le> d \<and> d \<le> daysInMonth y m"
  by (auto simp: isoDate_def validDate_def localMidnight_def msPerDay_def)

lemma format_localMidnight:
  assumes "isoDate (localMidnight y m d)"
  shows "format (localMidnight y m d) =
     twoDigits (nat y div 100) @ twoDigits (nat y mod 100) @ CHR ''-'' # twoDigits (nat m) @
     CHR ''-'' # twoDigits (nat d)"
  using format_iso[OF assms] by (simp add: localMidnight_def)

lemmas evalDate = isoDate_localMidnight format_localMidnight daysInMonth_def DaysInYear_def
  twoDigits_def digitChar_def

lemmas evalDay = MakeDay_def DayFromYear_def daysBeforeMonth_def DaysInYear_def localMidnight_def

lemma format_examples:
  "format (localMidnight 2024 1 10) = ''2024-01-10''"
  "format (localMidnight 2024 1 12) = ''2024-01-12''"
  by (simp_all add: evalDate)

text \<open>\<open>parseISO\<close> reads back what \<open>format\<close> prints.\<close>

lemma isDigit_digitChar: "n < 10 \<Longrightarrow> isDigit (digitChar n)"
  by (simp add: isDigit_def less_eq_char_def of_char_digitChar)

lemma int_decimal: "10 * int (n div 10) + int (n mod 10) = int n"
  "100 * int (n div 100) + int (n mod 100) = int n"
  by (simp_all add: zdiv_int zmod_int)

lemma numVal_twoDigits: "n < 100 \<Longrightarrow> numVal (twoDigits n) = int n"
proof -
  assume "n < 100"
  then have "n div 10 < 10" "n mod 10 < 10" by simp_all
  then show ?thesis
    by (simp add: numVal_def twoDigits_def of_char_digitChar int_decimal)
qed

lemma numVal_append_twoDigits:
  "n < 100 \<Longrightarrow> numVal (s @ twoDigits n) = 100 * numVal s + int n"
proof -
  assume "n < 100"
  then have "n div 10 < 10" "n mod 10 < 10" by simp_all
  moreover have "int n = 10 * int (n div 10) + int (n mod 10)" by (simp add: int_decimal)
  ultimately show ?thesis
    by (simp add: numVal_def twoDigits_def of_char_digitChar)
qed

lemma numVal_fourDigits:
  assumes "n < 10000"
  shows "numVal (twoDigits (n div 100) @ twoDigits (n mod 100)) = int n"
proof -
  from assms have "n div 100 < 100" "n mod 100 < 100" by simp_all
  then show ?thesis
    by (simp add: numVal_append_twoDigits numVal_twoDigits int_decimal)
qed

lemma list_all_isDigit_twoDigits: "n < 100 \<Longrightarrow> list_all isDigit (twoDigits n)"
  by (simp add: twoDigits_def isDigit_digitChar)

lemma parseISO_format:
  assumes "isoDate a"
  shows "parseISO (format a) = Some (setHours0 a)"
proof -
  from assms have y: "nat (year a) < 10000" "0 < year a"
    and m: "nat (month a) < 100" "1 \<le> month a" "month a \<le> 12"
    and d: "nat (dayOfMonth a) < 100" "1 \<le> dayOfMonth a"
      "dayOfMonth a \<le> daysInMonth (year a) (month a)"
    by (auto simp: isoDate_def validDate_def daysInMonth_def split: if_splits)
  define Y1 where "Y1 = twoDigits (nat (year a) div 100)"
  define Y2 where "Y2 = twoDigits (nat (year a) mod 100)"
  define M where "M = twoDigits (nat (month a))"
  define D where "D = twoDigits (nat (dayOfMonth a))"
  have len: "length Y1 = 2" "length Y2 = 2" "length M = 2" "length D = 2"
    by (simp_all add: Y1_def Y2_def M_def D_def twoDigits_def)
  have f: "format a = Y1 @ Y2 @ CHR ''-'' # M @ CHR ''-'' # D"
    using format_iso[OF assms] by (simp add: Y1_def Y2_def M_def D_def)
  have t4: "take 4 (format a) = Y1 @ Y2" using len by (simp add: f)
  have t2: "take 2 (drop 5 (format a)) = M" using len by (simp add: f)
  have d8: "drop 8 (format a) = D" using len by (simp add: f)
  have l: "length (format a) = 10" using len by (simp add: f)
  have s1: "format a ! 4 = CHR ''-''" using len by (simp add: f nth_append)
  have s2: "format a ! 7 = CHR ''-''" using len by (simp add: f nth_append)
  have dig: "list_all isDigit (Y1 @ Y2 @ M @ D)"
    using y m d by (simp add: Y1_def Y2_def M_def D_def list_all_isDigit_twoDigits)
  have vy: "numVal (Y1 @ Y2) = year a"
    using y numVal_fourDigits[of "nat (year a)"] by (simp add: Y1_def Y2_def)
  have vm: "numVal M = month a" using m by (simp add: M_def numVal_twoDigits)
  have vd: "numVal D = dayOfMonth a" using d by (simp add: D_def numVal_twoDigits)
  show ?thesis
    unfolding parseISO_def t4 t2 d8
    using l s1 s2 dig m d by (simp add: vy vm vd Let_def setHours0_def)
qed


section \<open>Day numbers and the walk back through the calendar\<close>

lemma div_between:
  fixes x :: int
  assumes "lo \<le> x" "x \<le> hi" "0 < c"
  shows "lo div c \<le> x div c \<and> x div c \<le> hi div c"
  using assms by (simp add: zdiv_mono1)

lemma DayFromYear_bounds:
  assumes "- 9999 \<le> y" "y \<le> 9999"
  shows "- 4400000 \<le> DayFromYear y \<and> DayFromYear y \<le> 2940000"
proof -
  define A where "A = (y - 1969) div 4"
  define B where "B = (y - 1901) div 100"
  define C where "C = (y - 1601) div 400"
  have a: "- 2992 \<le> A \<and> A \<le> 2007"
    unfolding A_def using div_between[of "- 11968" "y - 1969" 8030 4] assms by simp
  have b: "- 119 \<le> B \<and> B \<le> 80"
    unfolding B_def using div_between[of "- 11900" "y - 1901" 8098 100] assms by simp
  have c: "- 29 \<le> C \<and> C \<le> 20"
    unfolding C_def using div_between[of "- 11600" "y - 1601" 8398 400] assms by simp
  have "DayFromYear y = 365 * (y - 1970) + A - B + C"
    by (simp add: DayFromYear_def A_def B_def C_def)
  with a b c assms show ?thesis by auto
qed

lemma daysBeforeMonth_bounds:
  assumes "1 \<le> m" "m \<le> 12"
  shows "0 \<le> daysBeforeMonth y m \<and> daysBeforeMonth y m \<le> 335"
proof -
  from assms consider "m = 1" | "m = 2" | "m = 3" | "m = 4" | "m = 5" | "m = 6" | "m = 7" | "m = 8"
    | "m = 9" | "m = 10" | "m = 11" | "m = 12" by atomize_elim arith
  then show ?thesis
    by cases (simp_all add: daysBeforeMonth_def)
qed

lemma MakeDay_bounds:
  assumes "validDate d" "\<bar>year d\<bar> \<le> 9999"
  shows "- 4400000 \<le> MakeDay d \<and> MakeDay d \<le> 2941000"
proof -
  from assms have y: "- 9999 \<le> year d" "year d \<le> 9999" and m: "1 \<le> month d" "month d \<le> 12"
    and dd: "1 \<le> dayOfMonth d" "dayOfMonth d \<le> 31"
    by (auto simp: validDate_def daysInMonth_def split: if_splits)
  from DayFromYear_bounds[OF y] daysBeforeMonth_bounds[OF m, of "year d"] dd
  show ?thesis
    by (simp add: MakeDay_def)
qed

lemma MakeDay_setHours0: "MakeDay (setHours0 d) = MakeDay d"
  by (simp add: MakeDay_def setHours0_def)

lemma localTime_setHours0: "localTime (setHours0 d) = MakeDay d * msPerDay"
  by (simp add: localTime_def MakeDay_setHours0) (simp add: setHours0_def)

lemma addDays_minus_1: "addDays d (- 1) = prevDay d"
  by (simp add: addDays_def)





text \<open>One step back in the calendar is one day number less.\<close>

lemma div_step:
  fixes y c :: int
  assumes "0 < c"
  shows "y div c - (y - 1) div c = (if y mod c = 0 then 1 else 0)"
proof (cases "y mod c = 0")
  case True
  define q where "q = y div c"
  have y: "y = c * q" using True mult_div_mod_eq[of c y] by (simp add: q_def)
  have "y - 1 = c * (q - 1) + (c - 1)" by (simp add: y algebra_simps)
  then have "(y - 1) div c = q - 1"
    by (rule int_div_pos_eq) (use assms in simp_all)
  with True show ?thesis by (simp add: q_def)
next
  case False
  define r where "r = y mod c"
  define q where "q = y div c"
  have "0 \<le> r" "r < c" using assms by (simp_all add: r_def)
  with False have r: "0 < r" "r < c" by (simp_all add: r_def)
  have "y = c * q + r" using mult_div_mod_eq[of c y] by (simp add: r_def q_def)
  then have "y - 1 = c * q + (r - 1)" by simp
  then have "(y - 1) div c = q"
    by (rule int_div_pos_eq) (use r in simp_all)
  with False show ?thesis by (simp add: q_def)
qed

lemma DayFromYear_step: "DayFromYear y = DayFromYear (y - 1) + DaysInYear (y - 1)"
proof -
  have s4: "(y - 1969) div 4 = (y - 1) div 4 - 492" "(y - 1 - 1969) div 4 = (y - 2) div 4 - 492"
    using div_mult_self1[of 4 "y - 1" "- 492"] div_mult_self1[of 4 "y - 2" "- 492"] by simp_all
  have s100: "(y - 1901) div 100 = (y - 1) div 100 - 19" "(y - 1 - 1901) div 100 = (y - 2) div 100 - 19"
    using div_mult_self1[of 100 "y - 1" "- 19"] div_mult_self1[of 100 "y - 2" "- 19"] by simp_all
  have s400: "(y - 1601) div 400 = (y - 1) div 400 - 4" "(y - 1 - 1601) div 400 = (y - 2) div 400 - 4"
    using div_mult_self1[of 400 "y - 1" "- 4"] div_mult_self1[of 400 "y - 2" "- 4"] by simp_all
  have d4: "(y - 1) div 4 - (y - 2) div 4 = (if (y - 1) mod 4 = 0 then 1 else 0)"
    using div_step[of 4 "y - 1"] by simp
  have d100: "(y - 1) div 100 - (y - 2) div 100 = (if (y - 1) mod 100 = 0 then 1 else 0)"
    using div_step[of 100 "y - 1"] by simp
  have d400: "(y - 1) div 400 - (y - 2) div 400 = (if (y - 1) mod 400 = 0 then 1 else 0)"
    using div_step[of 400 "y - 1"] by simp
  have m: "(y - 1) mod 400 = 0 \<Longrightarrow> (y - 1) mod 100 = 0" "(y - 1) mod 100 = 0 \<Longrightarrow> (y - 1) mod 4 = 0"
  proof -
    have "(4::int) dvd 100" "(100::int) dvd 400" by simp_all
    then show "(y - 1) mod 400 = 0 \<Longrightarrow> (y - 1) mod 100 = 0"
      "(y - 1) mod 100 = 0 \<Longrightarrow> (y - 1) mod 4 = 0"
      by (auto simp: mod_eq_0_iff_dvd intro: dvd_trans)
  qed
  define A where "A = (y - 1) div 4" define A' where "A' = (y - 2) div 4"
  define B where "B = (y - 1) div 100" define B' where "B' = (y - 2) div 100"
  define C where "C = (y - 1) div 400" define C' where "C' = (y - 2) div 400"
  have "DayFromYear y - DayFromYear (y - 1) = 365 + (A - A') - (B - B') + (C - C')"
    unfolding DayFromYear_def s4 s100 s400 A_def A'_def B_def B'_def C_def C'_def by simp
  also have "\<dots> = DaysInYear (y - 1)"
    unfolding A_def A'_def B_def B'_def C_def C'_def d4 d100 d400 DaysInYear_def
    using m by auto
  finally show ?thesis by simp
qed

lemma daysBeforeMonth_step:
  assumes "2 \<le> m" "m \<le> 12"
  shows "daysBeforeMonth y m = daysBeforeMonth y (m - 1) + daysInMonth y (m - 1)"
proof -
  from assms consider "m = 2" | "m = 3" | "m = 4" | "m = 5" | "m = 6" | "m = 7" | "m = 8"
    | "m = 9" | "m = 10" | "m = 11" | "m = 12" by atomize_elim arith
  then show ?thesis
    by cases (simp_all add: daysBeforeMonth_def daysInMonth_def)
qed

lemma daysBeforeMonth_first_last:
  "daysBeforeMonth y 1 = 0" "daysBeforeMonth y 12 + 31 = DaysInYear y"
  by (auto simp: daysBeforeMonth_def DaysInYear_def)

lemma MakeDay_prevDay:
  assumes "validDate d"
  shows "MakeDay (addDays d (- 1)) = MakeDay d - 1"
proof -
  consider (day) "1 < dayOfMonth d"
    | (month) "\<not> 1 < dayOfMonth d" "1 < month d"
    | (year) "\<not> 1 < dayOfMonth d" "\<not> 1 < month d" by blast
  then have "MakeDay (prevDay d) = MakeDay d - 1"
  proof cases
    case day
    then show ?thesis by (simp add: prevDay_def MakeDay_def)
  next
    case month
    with assms have m: "2 \<le> month d" "month d \<le> 12" and d1: "dayOfMonth d = 1"
      by (simp_all add: validDate_def)
    from month show ?thesis
      by (simp add: prevDay_def MakeDay_def daysBeforeMonth_step[OF m] d1)
  next
    case year
    with assms have d1: "dayOfMonth d = 1" "month d = 1" by (simp_all add: validDate_def)
    from year show ?thesis
      using daysBeforeMonth_first_last[of "year d - 1"] daysBeforeMonth_first_last(1)[of "year d"]
        DayFromYear_step[of "year d"]
      by (simp add: prevDay_def MakeDay_def d1)
  qed
  then show ?thesis by (simp add: addDays_minus_1)
qed

lemma daysBack_0: "daysBack d 0 = d"
  by (simp add: daysBack_def)

lemma daysBack_Suc: "daysBack d (Suc i) = addDays (daysBack d i) (- 1)"
  by (simp add: daysBack_def)

lemma daysBack_shift: "daysBack (addDays d (- 1)) i = daysBack d (Suc i)"
  using funpow_swap1[of "\<lambda>d. addDays d (- 1)" i d] by (simp add: daysBack_def)









section \<open>The recurrence evaluator: exact match and non-recurring workouts\<close>

text \<open>
  C10: on the date equal to its own date string a workout is always active: the exact
  match is tested before any recurrence field is read, so neither the recurring flag nor
  the recurrence type, interval, weekdays or end date can switch it off, not even an end
  date that lies before the workout's date.
\<close>

theorem isWorkoutOnDate_exact_match:
  "Workout.date w = format d \<Longrightarrow> isWorkoutOnDate tz w d"
  by (simp add: isWorkoutOnDate_def)

theorem isWorkoutOnDate_exact_match_witness:
  "Workout.date (gymSession\<lparr>recurring := Some True, recurrenceType := Some ''daily'',
       recurrenceEnd := Some ''2024-01-05''\<rparr>) = format (localMidnight 2024 1 10) \<and>
   ''2024-01-05'' < Workout.date gymSession \<and>
   isWorkoutOnDate utc (gymSession\<lparr>recurring := Some True, recurrenceType := Some ''daily'',
       recurrenceEnd := Some ''2024-01-05''\<rparr>) (localMidnight 2024 1 10)"
proof -
  let ?w = "gymSession\<lparr>recurring := Some True, recurrenceType := Some ''daily'',
       recurrenceEnd := Some ''2024-01-05''\<rparr>"
  have d: "Workout.date ?w = format (localMidnight 2024 1 10)"
    by (simp add: gymSession_def format_examples)
  have e: "''2024-01-05'' < Workout.date gymSession"
    by (simp add: gymSession_def)
  from isWorkoutOnDate_exact_match[OF d] d e show ?thesis
    by blast
qed

text \<open>
  C4: a workout that is not recurring, or whose recurrence type is \<open>'none'\<close> or absent, is on
  a date exactly when the formatted date equals the workout's date string.
\<close>

theorem isWorkoutOnDate_nonrecurring:
  assumes "recurring w \<noteq> Some True \<or> recurrenceType w = None \<or> recurrenceType w = Some [] \<or>
     recurrenceType w = Some ''none''"
  shows "isWorkoutOnDate tz w d \<longleftrightarrow> Workout.date w = format d"
  using assms by (auto simp: isWorkoutOnDate_def Let_def truthy_def)

theorem isWorkoutOnDate_nonrecurring_witness:
  "recurring gymSession \<noteq> Some True \<and>
   isWorkoutOnDate utc gymSession (localMidnight 2024 1 10) \<and>
   \<not> isWorkoutOnDate utc gymSession (localMidnight 2024 1 12)"
proof -
  have r: "recurring gymSession \<noteq> Some True" by (simp add: gymSession_def)
  have d: "Workout.date gymSession = ''2024-01-10''" by (simp add: gymSession_def)
  from r have "\<And>t. isWorkoutOnDate utc gymSession t \<longleftrightarrow> Workout.date gymSession = format t"
    by (intro isWorkoutOnDate_nonrecurring) simp
  with r d show ?thesis by (simp add: format_examples)
qed


section \<open>The recurrence evaluator: weekly workouts\<close>

lemma getDay_range: "0 \<le> getDay d \<and> getDay d \<le> 6"
  by (simp add: getDay_def)

text \<open>
  C5: for a recurring weekly workout, on a date that its date string precedes (in the order
  of the strings) and that is not after its end date, the workout is active exactly when the
  weekday of the date, 0 for Sunday to 6 for Saturday, is in \<open>recurrenceDays\<close>; with
  \<open>recurrenceDays\<close> absent or empty the result is the value false.
\<close>

theorem isWorkoutOnDate_weekly:
  assumes "recurring w = Some True" and "recurrenceType w = Some ''weekly''"
    and "Workout.date w \<le> format t" and "format t \<noteq> Workout.date w"
    and "recurrenceEnd w = None \<or> (\<exists>e. recurrenceEnd w = Some e \<and> format t \<le> e)"
  shows "(isWorkoutOnDate tz w t \<longleftrightarrow>
           (case recurrenceDays w of None \<Rightarrow> False | Some ds \<Rightarrow> getDay t \<in> set ds)) \<and>
         (recurrenceDays w = None \<or> recurrenceDays w = Some [] \<longrightarrow> \<not> isWorkoutOnDate tz w t)"
  using assms by (auto simp: isWorkoutOnDate_def Let_def truthy_def split: option.splits)

theorem isWorkoutOnDate_weekly_witness:
  "recurring weeklyGym = Some True \<and> recurrenceType weeklyGym = Some ''weekly'' \<and>
   Workout.date weeklyGym \<le> format (localMidnight 2024 1 3) \<and>
   getDay (localMidnight 2024 1 3) = 3 \<and> getDay (localMidnight 2024 1 4) = 4 \<and>
   isWorkoutOnDate utc weeklyGym (localMidnight 2024 1 3) \<and>
   \<not> isWorkoutOnDate utc weeklyGym (localMidnight 2024 1 4) \<and>
   \<not> isWorkoutOnDate utc (weeklyGym\<lparr>recurrenceDays := None\<rparr>) (localMidnight 2024 1 3)"
proof -
  have f: "format (localMidnight 2024 1 3) = ''2024-01-03''"
    "format (localMidnight 2024 1 4) = ''2024-01-04''"
    by (simp_all add: evalDate)
  have w: "recurring weeklyGym = Some True" "recurrenceType weeklyGym = Some ''weekly''"
    "Workout.date weeklyGym \<le> format (localMidnight 2024 1 3)"
    "format (localMidnight 2024 1 3) \<noteq> Workout.date weeklyGym"
    "Workout.date weeklyGym \<le> format (localMidnight 2024 1 4)"
    "format (localMidnight 2024 1 4) \<noteq> Workout.date weeklyGym"
    "recurrenceEnd weeklyGym = None \<or> (\<exists>e. recurrenceEnd weeklyGym = Some e \<and> format t \<le> e)"
    "recurrenceDays weeklyGym = Some [1, 3, 5]"
    for t
    by (simp_all add: weeklyGym_def gymSession_def f)
  let ?v = "weeklyGym\<lparr>recurrenceDays := None\<rparr>"
  have v: "recurring ?v = Some True" "recurrenceType ?v = Some ''weekly''"
    "Workout.date ?v \<le> format (localMidnight 2024 1 3)"
    "format (localMidnight 2024 1 3) \<noteq> Workout.date ?v"
    "recurrenceEnd ?v = None \<or> (\<exists>e. recurrenceEnd ?v = Some e \<and> format t \<le> e)"
    "recurrenceDays ?v = None"
    for t
    by (simp_all add: weeklyGym_def gymSession_def f)
  have g: "getDay (localMidnight 2024 1 3) = 3" "getDay (localMidnight 2024 1 4) = 4"
    by (simp_all add: getDay_def evalDay)
  have "isWorkoutOnDate utc weeklyGym (localMidnight 2024 1 3)"
    using isWorkoutOnDate_weekly[OF w(1,2,3,4,7), of utc] g by (simp add: w(8))
  moreover have "\<not> isWorkoutOnDate utc weeklyGym (localMidnight 2024 1 4)"
    using isWorkoutOnDate_weekly[OF w(1,2,5,6,7), of utc] g by (simp add: w(8))
  moreover have "\<not> isWorkoutOnDate utc ?v (localMidnight 2024 1 3)"
    using isWorkoutOnDate_weekly[OF v(1,2,3,4,5), of utc] by (simp add: v(6))
  ultimately show ?thesis using w(1,2,3) g by blast
qed


section \<open>The recurrence evaluator: daily workouts\<close>

text \<open>
  C2, as amended: a recurring daily workout whose date and end date are dates of the data
  model is active on a date \<open>t\<close> of the data model exactly when \<open>t\<close> is the workout's own
  date, or \<open>t\<close> is after the workout's date and, where an end date is set, not after the end
  date. So with an end date it is active from its date through the end date inclusive and
  inactive on every later date other than its own date; without one it is active from its
  date on and inactive before.
\<close>

theorem isWorkoutOnDate_daily:
  assumes "recurring w = Some True" and "recurrenceType w = Some ''daily''"
    and "Workout.date w = format a" and "isoDate a" and "isoDate t"
    and "recurrenceEnd w = None \<or> (recurrenceEnd w = Some (format e) \<and> isoDate e)"
  shows "isWorkoutOnDate tz w t \<longleftrightarrow>
     sameDay a t \<or> (dateLess a t \<and> (recurrenceEnd w = None \<or> \<not> dateLess e t))"
proof -
  have eq: "format a = format t \<longleftrightarrow> sameDay a t"
    by (rule format_eq_iff) fact+
  have le: "format a \<le> format t \<longleftrightarrow> \<not> dateLess t a"
    by (rule format_le_iff) fact+
  show ?thesis
  proof (cases "recurrenceEnd w")
    case None
    with assms(1-3) eq le dateLess_cases[of a t] dateLess_asym[of a t] show ?thesis
      by (auto simp: isWorkoutOnDate_def Let_def truthy_def)
  next
    case (Some s)
    with assms(6) have s: "s = format e" and e: "isoDate e" by auto
    have lt: "format e < format t \<longleftrightarrow> dateLess e t"
      by (rule format_less_iff) fact+
    have ne: "format e \<noteq> []"
      by (rule format_not_empty) fact
    from Some s assms(1-3) eq le lt ne dateLess_cases[of a t] dateLess_asym[of a t] show ?thesis
      by (auto simp: isWorkoutOnDate_def Let_def truthy_def)
  qed
qed

theorem isWorkoutOnDate_daily_witness:
  "recurring dailyRun = Some True \<and> recurrenceType dailyRun = Some ''daily'' \<and>
   Workout.date dailyRun = format (localMidnight 2024 1 1) \<and>
   recurrenceEnd dailyRun = Some (format (localMidnight 2024 1 5)) \<and>
   isWorkoutOnDate utc dailyRun (localMidnight 2024 1 5) \<and>
   \<not> isWorkoutOnDate utc dailyRun (localMidnight 2024 1 6)"
proof -
  have f: "format (localMidnight 2024 1 1) = ''2024-01-01''"
    "format (localMidnight 2024 1 5) = ''2024-01-05''"
    by (simp_all add: evalDate)
  have i: "isoDate (localMidnight 2024 1 1)" "isoDate (localMidnight 2024 1 5)"
    "isoDate (localMidnight 2024 1 6)"
    by (simp_all add: evalDate)
  have h: "recurring dailyRun = Some True" "recurrenceType dailyRun = Some ''daily''"
    "Workout.date dailyRun = format (localMidnight 2024 1 1)"
    "recurrenceEnd dailyRun = None \<or> (recurrenceEnd dailyRun = Some (format (localMidnight 2024 1 5)) \<and>
       isoDate (localMidnight 2024 1 5))"
    by (simp_all add: dailyRun_def gymSession_def f i)
  have "isWorkoutOnDate utc dailyRun (localMidnight 2024 1 5)"
    unfolding isWorkoutOnDate_daily[OF h(1-3) i(1) i(2) h(4)]
    by (simp add: dateLess_def sameDay_def localMidnight_def)
  moreover have "\<not> isWorkoutOnDate utc dailyRun (localMidnight 2024 1 6)"
    unfolding isWorkoutOnDate_daily[OF h(1-3) i(1) i(3) h(4)]
    by (simp add: dateLess_def sameDay_def localMidnight_def dailyRun_def gymSession_def)
  ultimately show ?thesis using h by (simp add: dailyRun_def gymSession_def f)
qed

text \<open>
  The claim as first stated fails: a daily workout dated 2024-01-10 whose end date is
  2024-01-05 is active on 2024-01-10, a date strictly after its end date.
\<close>

theorem isWorkoutOnDate_daily_after_end_counterexample:
  "recurring lapsedRun = Some True \<and> recurrenceType lapsedRun = Some ''daily'' \<and>
   recurrenceEnd lapsedRun = Some (format (localMidnight 2024 1 5)) \<and>
   dateLess (localMidnight 2024 1 5) (localMidnight 2024 1 10) \<and>
   format (localMidnight 2024 1 5) < format (localMidnight 2024 1 10) \<and>
   isWorkoutOnDate utc lapsedRun (localMidnight 2024 1 10)"
proof -
  have f: "format (localMidnight 2024 1 5) = ''2024-01-05''"
    "format (localMidnight 2024 1 10) = ''2024-01-10''"
    by (simp_all add: evalDate)
  have "dateLess (localMidnight 2024 1 5) (localMidnight 2024 1 10)"
    by (simp add: dateLess_def localMidnight_def)
  moreover have "isWorkoutOnDate utc lapsedRun (localMidnight 2024 1 10)"
    by (simp add: f isWorkoutOnDate_def lapsedRun_def gymSession_def)
  ultimately show ?thesis
    by (simp add: f lapsedRun_def gymSession_def)
qed


section \<open>The recurrence evaluator: workouts every n days\<close>

lemma jsRem_eq_0_iff: "0 \<le> k \<Longrightarrow> 1 \<le> n \<Longrightarrow> jsRem k n = 0 \<longleftrightarrow> n dvd k"
  by (auto simp: jsRem_def sgn_if dvd_eq_mod_eq_0)

text \<open>
  The day difference that the \<open>custom\<close> branch computes is the difference of the day
  numbers of the two calendar dates: the two midnights are a whole number of days apart
  but for the change of the zone's offset between them, and \<open>Math.round\<close> removes a
  change of less than 12 hours.
\<close>

lemma diffDays_exact:
  assumes a: "validDate a" "\<bar>year a\<bar> \<le> 9999" and t: "validDate t" "\<bar>year t\<bar> \<le> 9999"
    and tz: "\<bar>offsetAtMidnight tz t - offsetAtMidnight tz a\<bar> < msPerDay div 2"
  shows "Math_round (jsDiv (of_int (getTime tz (setHours0 t) - getTime tz (setHours0 a)))
           (of_int msPerDay)) = MakeDay t - MakeDay a"
proof -
  define D where "D = MakeDay t - MakeDay a"
  define dl where "dl = tz (localTime (setHours0 t)) - tz (localTime (setHours0 a))"
  have dl: "\<bar>dl\<bar> < 43200000"
    using tz unfolding offsetAtMidnight_def dl_def msPerDay_def by simp
  have D: "\<bar>D\<bar> \<le> 7341000"
    using MakeDay_bounds[OF a] MakeDay_bounds[OF t] unfolding D_def by auto
  have diff: "getTime tz (setHours0 t) - getTime tz (setHours0 a) = D * 86400000 - dl"
    by (simp add: getTime_def dl_def localTime_setHours0 D_def msPerDay_def algebra_simps)
  have "\<bar>D * 86400000\<bar> \<le> 7341000 * 86400000"
    using D by (simp add: abs_mult)
  with dl have small: "\<bar>D * 86400000 - dl\<bar> < 2 ^ 52" by simp
  have "Math_round (jsDiv (of_int (D * 86400000 - dl)) (of_int 86400000))
      = \<lfloor>(of_int (D * 86400000 - dl) / of_int 86400000 :: rat) + 1 / 2\<rfloor>"
    using Math_round_jsDiv[of 86400000 "D * 86400000 - dl"] small by simp
  also have "\<dots> = D"
  proof (rule floor_unique)
    have q: "(of_int (D * 86400000 - dl) / of_int 86400000 :: rat) + 1 / 2
        = of_int D + (of_int (43200000 - dl) / 86400000)"
      by (simp add: field_simps)
    have "(0::rat) \<le> of_int (43200000 - dl)" "(of_int (43200000 - dl) :: rat) < of_int 86400000"
      using dl by (simp_all only: of_int_0_le_iff of_int_less_iff)
    then have "0 \<le> (of_int (43200000 - dl) / 86400000 :: rat)"
      "(of_int (43200000 - dl) / 86400000 :: rat) < 1"
      by simp_all
    then show "of_int D \<le> (of_int (D * 86400000 - dl) / of_int 86400000 :: rat) + 1 / 2"
      "(of_int (D * 86400000 - dl) / of_int 86400000 :: rat) + 1 / 2 < of_int D + 1"
      unfolding q by simp_all
  qed
  finally show ?thesis
    by (simp add: diff D_def msPerDay_def)
qed

text \<open>
  C1, as amended: for a recurring workout of type \<open>custom\<close> whose date is a date of the data
  model, on a date that its date string precedes and that is not after its end date, in a
  host whose offsets from UTC at the local midnights of the two dates are less than 12 hours
  apart, the workout is active exactly when the interval is present and at least 1 and the
  number of calendar days from the workout's date to the target date, an exact integer, is
  at least 0 and divisible by the interval. The target date is any date within 9999 years
  of year 0.
\<close>

theorem isWorkoutOnDate_custom:
  assumes "recurring w = Some True" and "recurrenceType w = Some ''custom''"
    and "Workout.date w = format a" and "isoDate a"
    and "validDate t" and "\<bar>year t\<bar> \<le> 9999"
    and "Workout.date w \<le> format t" and "format t \<noteq> Workout.date w"
    and "recurrenceEnd w = None \<or> (\<exists>e. recurrenceEnd w = Some e \<and> format t \<le> e)"
    and "\<bar>offsetAtMidnight tz t - offsetAtMidnight tz a\<bar> < msPerDay div 2"
  shows "isWorkoutOnDate tz w t \<longleftrightarrow>
     (case recurrenceInterval w of None \<Rightarrow> False
      | Some n \<Rightarrow> 1 \<le> n \<and> 0 \<le> MakeDay t - MakeDay a \<and> n dvd (MakeDay t - MakeDay a))"
proof -
  note a = isoDate_imp_valid[OF assms(4)]
  have cut: "\<not> (case recurrenceEnd w of None \<Rightarrow> False | Some s \<Rightarrow> s \<noteq> [] \<and> format t > s)"
    using assms(9) by (auto split: option.splits)
  have "setHours0 (setHours0 a) = setHours0 a"
    by (simp add: setHours0_def)
  with diffDays_exact[OF a[THEN conjunct1] a[THEN conjunct2] assms(5,6,10)]
  have dd: "Math_round (jsDiv (of_int (getTime tz (setHours0 t)) -
              of_int (getTime tz (setHours0 (setHours0 a)))) (of_int msPerDay))
            = MakeDay t - MakeDay a"
    by simp
  show ?thesis
  proof (cases "recurrenceInterval w")
    case None
    with assms(1-3,7,8) cut show ?thesis
      by (simp add: isWorkoutOnDate_def Let_def truthy_def)
  next
    case (Some n)
    show ?thesis
    proof (cases "1 \<le> n")
      case False
      with Some assms(1-3,7,8) cut show ?thesis
        by (auto simp: isWorkoutOnDate_def Let_def truthy_def)
    next
      case True
      then have n: "n \<noteq> 0" "\<not> n < 1" by simp_all
      from Some assms(1-3,7,8) cut n True show ?thesis
        by (auto simp: isWorkoutOnDate_def Let_def truthy_def parseISO_format[OF assms(4)] dd
            jsRem_eq_0_iff)
    qed
  qed
qed

lemma madrid_offsets:
  "offsetAtMidnight madrid (localMidnight 2024 3 25) = 3600000"
  "offsetAtMidnight madrid (localMidnight 2024 3 30) = 3600000"
  "offsetAtMidnight madrid (localMidnight 2024 4 1) = 7200000"
  by (simp_all add: offsetAtMidnight_def localTime_def setHours0_def madrid_def msPerDay_def evalDay)

theorem isWorkoutOnDate_custom_witness:
  "recurring everyWeek = Some True \<and> recurrenceType everyWeek = Some ''custom'' \<and>
   Workout.date everyWeek = format (localMidnight 2024 3 25) \<and>
   Workout.date everyWeek \<le> format (localMidnight 2024 4 1) \<and>
   offsetAtMidnight madrid (localMidnight 2024 4 1) -
     offsetAtMidnight madrid (localMidnight 2024 3 25) = 3600000 \<and>
   getTime madrid (localMidnight 2024 4 1) - getTime madrid (localMidnight 2024 3 25)
     = 7 * msPerDay - 3600000 \<and>
   isWorkoutOnDate madrid everyWeek (localMidnight 2024 4 1) \<and>
   \<not> isWorkoutOnDate madrid everyWeek (localMidnight 2024 3 30)"
proof -
  have i: "isoDate (localMidnight 2024 3 25)" "isoDate (localMidnight 2024 4 1)"
    "isoDate (localMidnight 2024 3 30)"
    by (simp_all add: evalDate)
  have f: "format (localMidnight 2024 3 25) = ''2024-03-25''"
    "format (localMidnight 2024 4 1) = ''2024-04-01''"
    "format (localMidnight 2024 3 30) = ''2024-03-30''"
    by (simp_all add: evalDate)
  have w: "recurring everyWeek = Some True" "recurrenceType everyWeek = Some ''custom''"
    "Workout.date everyWeek = format (localMidnight 2024 3 25)"
    "recurrenceEnd everyWeek = None \<or> (\<exists>e. recurrenceEnd everyWeek = Some e \<and> format t \<le> e)"
    "recurrenceInterval everyWeek = Some 7"
    for t
    by (simp_all add: everyWeek_def gymSession_def f)
  have o: "Workout.date everyWeek \<le> format (localMidnight 2024 4 1)"
    "format (localMidnight 2024 4 1) \<noteq> Workout.date everyWeek"
    "Workout.date everyWeek \<le> format (localMidnight 2024 3 30)"
    "format (localMidnight 2024 3 30) \<noteq> Workout.date everyWeek"
    by (simp_all add: everyWeek_def gymSession_def f)
  have d: "MakeDay (localMidnight 2024 4 1) - MakeDay (localMidnight 2024 3 25) = 7"
    "MakeDay (localMidnight 2024 3 30) - MakeDay (localMidnight 2024 3 25) = 5"
    by (simp_all add: evalDay)
  have g: "getTime madrid (localMidnight 2024 4 1) - getTime madrid (localMidnight 2024 3 25)
     = 7 * msPerDay - 3600000"
    by (simp add: getTime_def localTime_def madrid_def msPerDay_def evalDay)
  have z: "\<bar>offsetAtMidnight madrid (localMidnight 2024 4 1) -
      offsetAtMidnight madrid (localMidnight 2024 3 25)\<bar> < msPerDay div 2"
    "\<bar>offsetAtMidnight madrid (localMidnight 2024 3 30) -
      offsetAtMidnight madrid (localMidnight 2024 3 25)\<bar> < msPerDay div 2"
    by (simp_all add: madrid_offsets msPerDay_def)
  have s: "offsetAtMidnight madrid (localMidnight 2024 4 1) -
     offsetAtMidnight madrid (localMidnight 2024 3 25) = 3600000"
    by (simp add: madrid_offsets)
  note v = isoDate_imp_valid[OF i(2)] isoDate_imp_valid[OF i(3)]
  have "isWorkoutOnDate madrid everyWeek (localMidnight 2024 4 1)"
    unfolding isWorkoutOnDate_custom[OF w(1-3) i(1) v(1)[THEN conjunct1] v(1)[THEN conjunct2]
        o(1,2) w(4) z(1)] w(5) d
    by simp
  moreover have "\<not> isWorkoutOnDate madrid everyWeek (localMidnight 2024 3 30)"
    unfolding isWorkoutOnDate_custom[OF w(1-3) i(1) v(2)[THEN conjunct1] v(2)[THEN conjunct2]
        o(3,4) w(4) z(2)] w(5) d
    by simp
  ultimately show ?thesis using w(1-3) o(1) g s by blast
qed

text \<open>
  Without the condition on the zone the claim fails. At the end of 29 December 2011 the zone
  Pacific/Apia moved from 10 hours behind UTC to 14 hours ahead of it, and 30 December was
  skipped. From local midnight of 29 December to local midnight of 31 December one day
  passes, while the calendar dates are two days apart: a workout of every 2 days dated
  2011-12-29 is not active on 2011-12-31.
\<close>

theorem isWorkoutOnDate_custom_skipped_day_counterexample:
  "recurring everyOtherDay = Some True \<and> recurrenceType everyOtherDay = Some ''custom'' \<and>
   recurrenceInterval everyOtherDay = Some 2 \<and> recurrenceEnd everyOtherDay = None \<and>
   Workout.date everyOtherDay = format (localMidnight 2011 12 29) \<and>
   Workout.date everyOtherDay \<le> format (localMidnight 2011 12 31) \<and>
   format (localMidnight 2011 12 31) \<noteq> Workout.date everyOtherDay \<and>
   MakeDay (localMidnight 2011 12 31) - MakeDay (localMidnight 2011 12 29) = 2 \<and>
   getTime apia (localMidnight 2011 12 31) - getTime apia (localMidnight 2011 12 29) = msPerDay \<and>
   \<not> isWorkoutOnDate apia everyOtherDay (localMidnight 2011 12 31)"
proof -
  have f: "format (localMidnight 2011 12 29) = ''2011-12-29''"
    "format (localMidnight 2011 12 31) = ''2011-12-31''"
    by (simp_all add: evalDate)
  have i: "isoDate (localMidnight 2011 12 29)" by (simp add: evalDate)
  have p: "parseISO ''2011-12-29'' = Some (setHours0 (localMidnight 2011 12 29))"
    using parseISO_format[OF i] by (simp add: f)
  have d: "MakeDay (localMidnight 2011 12 31) - MakeDay (localMidnight 2011 12 29) = 2"
    by (simp add: evalDay)
  have g: "getTime apia (localMidnight 2011 12 31) - getTime apia (localMidnight 2011 12 29)
      = msPerDay"
    by (simp add: getTime_def localTime_def apia_def msPerDay_def evalDay)
  have h: "setHours0 (localMidnight y m dd) = localMidnight y m dd" for y m dd
    by (simp add: setHours0_def localMidnight_def)
  have r: "Math_round (jsDiv (of_int (getTime apia (localMidnight 2011 12 31)) -
        of_int (getTime apia (localMidnight 2011 12 29))) (of_int msPerDay)) = 1"
  proof -
    have "(of_int (getTime apia (localMidnight 2011 12 31)) :: rat) -
        of_int (getTime apia (localMidnight 2011 12 29)) = of_int msPerDay"
      unfolding of_int_diff[symmetric] g ..
    moreover have "\<lfloor>3 / 2 :: rat\<rfloor> = 1" by (rule floor_unique) simp_all
    ultimately show ?thesis
      using fl_exact[of 1 0] by (simp add: Math_round_def jsDiv_def msPerDay_def)
  qed
  have "\<not> isWorkoutOnDate apia everyOtherDay (localMidnight 2011 12 31)"
    by (simp add: isWorkoutOnDate_def Let_def truthy_def everyOtherDay_def gymSession_def f p h r
        jsRem_def)
  then show ?thesis
    using d g by (simp add: everyOtherDay_def gymSession_def f)
qed


section \<open>The period aggregator\<close>

text \<open>
  The sums of \<open>reduce\<close> are exact as long as the values are whole numbers and the partial
  sums stay within \<open>2 ^ 53\<close>.
\<close>

lemma foldl_jsAdd_exact:
  assumes "\<forall>x\<in>set xs. f x \<in> \<int>" and "acc \<in> \<int>"
    and "\<bar>acc\<bar> + sum_list (map (\<lambda>x. \<bar>f x\<bar>) xs) \<le> 2 ^ 53"
  shows "foldl (\<lambda>s x. jsAdd s (f x)) acc xs = acc + sum_list (map f xs)"
  using assms
proof (induction xs arbitrary: acc)
  case Nil
  then show ?case by simp
next
  case (Cons x xs)
  have nn: "0 \<le> sum_list (map (\<lambda>x. \<bar>f x\<bar>) xs)" by (rule sum_list_nonneg) auto
  have i: "acc + f x \<in> \<int>" using Cons.prems by simp
  have b: "\<bar>acc + f x\<bar> \<le> 2 ^ 53" using Cons.prems(3) nn by simp
  have s: "jsAdd acc (f x) = acc + f x"
    unfolding jsAdd_def by (rule fl_Ints[OF i b])
  have "foldl (\<lambda>s x. jsAdd s (f x)) (acc + f x) xs = acc + f x + sum_list (map f xs)"
    by (rule Cons.IH) (use Cons.prems i in auto)
  then show ?case by (simp add: s)
qed

lemma sum_list_abs_filter:
  assumes "\<forall>x\<in>set xs. \<bar>f x\<bar> \<le> c"
  shows "sum_list (map (\<lambda>x. \<bar>f x :: rat\<bar>) (filter P xs)) \<le> of_nat (length xs) * c"
  using assms
proof (induction xs)
  case Nil
  then show ?case by simp
next
  case (Cons x xs)
  then have "0 \<le> c" "\<bar>f x\<bar> \<le> c" by auto
  with Cons show ?case by (auto simp: algebra_simps)
qed

lemma sum_list_abs: "\<bar>sum_list (map f xs) :: rat\<bar> \<le> sum_list (map (\<lambda>x. \<bar>f x\<bar>) xs)"
  by (induction xs) auto

lemma sum_list_Ints: "\<forall>x\<in>set xs. f x \<in> \<int> \<Longrightarrow> sum_list (map f xs) \<in> (\<int> :: rat set)"
  by (induction xs) auto

text \<open>The sum that \<open>reduce\<close> computes over the records of one day.\<close>

lemma day_sum:
  assumes "\<forall>x\<in>set xs. f x \<in> \<int> \<and> \<bar>f x\<bar> \<le> c" and "of_nat (length xs) * c \<le> 2 ^ 53"
  shows "foldl (\<lambda>s x. jsAdd s (f x)) 0 (filter P xs) = sum_list (map f (filter P xs))"
    and "sum_list (map f (filter P xs)) \<in> \<int>"
    and "\<bar>sum_list (map f (filter P xs))\<bar> \<le> of_nat (length xs) * c"
proof -
  have b: "sum_list (map (\<lambda>x. \<bar>f x\<bar>) (filter P xs)) \<le> of_nat (length xs) * c"
    by (rule sum_list_abs_filter) (use assms in auto)
  show "foldl (\<lambda>s x. jsAdd s (f x)) 0 (filter P xs) = sum_list (map f (filter P xs))"
    using foldl_jsAdd_exact[of "filter P xs" f 0] assms b by auto
  show "sum_list (map f (filter P xs)) \<in> \<int>"
    by (rule sum_list_Ints) (use assms in auto)
  show "\<bar>sum_list (map f (filter P xs))\<bar> \<le> of_nat (length xs) * c"
    using sum_list_abs[of f "filter P xs"] b by linarith
qed

lemma foldl_totals:
  "foldl (\<lambda>acc d.
       \<lparr>caloriesIn = jsAdd (Totals.caloriesIn acc) (DayStats.caloriesIn d),
        caloriesOut = jsAdd (Totals.caloriesOut acc) (DayStats.caloriesOut d),
        protein = jsAdd (Totals.protein acc) (DayStats.protein d),
        carbs = jsAdd (Totals.carbs acc) (DayStats.carbs d),
        fat = jsAdd (Totals.fat acc) (DayStats.fat d),
        workoutMinutes = jsAdd (Totals.workoutMinutes acc) (DayStats.workoutMinutes d),
        workoutCount = jsAdd (Totals.workoutCount acc) (DayStats.workoutCount d)\<rparr>) acc ds =
     \<lparr>caloriesIn = foldl (\<lambda>s d. jsAdd s (DayStats.caloriesIn d)) (Totals.caloriesIn acc) ds,
      caloriesOut = foldl (\<lambda>s d. jsAdd s (DayStats.caloriesOut d)) (Totals.caloriesOut acc) ds,
      protein = foldl (\<lambda>s d. jsAdd s (DayStats.protein d)) (Totals.protein acc) ds,
      carbs = foldl (\<lambda>s d. jsAdd s (DayStats.carbs d)) (Totals.carbs acc) ds,
      fat = foldl (\<lambda>s d. jsAdd s (DayStats.fat d)) (Totals.fat acc) ds,
      workoutMinutes = foldl (\<lambda>s d. jsAdd s (DayStats.workoutMinutes d)) (Totals.workoutMinutes acc) ds,
      workoutCount = foldl (\<lambda>s d. jsAdd s (DayStats.workoutCount d)) (Totals.workoutCount acc) ds\<rparr>"
  by (induction ds arbitrary: acc) simp_all

lemma totalStats_folds:
  "totalStats ds =
     \<lparr>caloriesIn = foldl (\<lambda>s d. jsAdd s (DayStats.caloriesIn d)) 0 ds,
      caloriesOut = foldl (\<lambda>s d. jsAdd s (DayStats.caloriesOut d)) 0 ds,
      protein = foldl (\<lambda>s d. jsAdd s (DayStats.protein d)) 0 ds,
      carbs = foldl (\<lambda>s d. jsAdd s (DayStats.carbs d)) 0 ds,
      fat = foldl (\<lambda>s d. jsAdd s (DayStats.fat d)) 0 ds,
      workoutMinutes = foldl (\<lambda>s d. jsAdd s (DayStats.workoutMinutes d)) 0 ds,
      workoutCount = foldl (\<lambda>s d. jsAdd s (DayStats.workoutCount d)) 0 ds\<rparr>"
  unfolding totalStats_def foldl_totals by simp

text \<open>The sum over the days of a field that is a whole number on every day.\<close>

lemma period_sum:
  assumes "\<forall>d\<in>set ds. f d \<in> \<int> \<and> \<bar>f d\<bar> \<le> c" and "of_nat (length ds) * c \<le> 2 ^ 53"
  shows "foldl (\<lambda>s d. jsAdd s (f d)) 0 ds = sum_list (map f ds)"
    and "sum_list (map f ds) \<in> \<int>"
    and "\<bar>sum_list (map f ds)\<bar> \<le> of_nat (length ds) * c"
  using day_sum[OF assms, of "\<lambda>d. True"] by simp_all

lemma of_nat_le_rat: "a \<le> b \<Longrightarrow> (of_nat a :: rat) \<le> of_nat b"
  by simp

lemma whole_Ints: "of_int \<lfloor>x\<rfloor> = x \<Longrightarrow> x \<in> (\<int> :: rat set)"
  by (metis Ints_of_int)

lemma day_fields:
  assumes ws: "\<forall>w\<in>set ws. wholeUpTo M (caloriesBurned w) \<and> wholeUpTo M (duration w)"
    and ms: "\<forall>m\<in>set ms. wholeUpTo M (totalCalories m) \<and> wholeUpTo M (totalProtein m) \<and>
               wholeUpTo M (totalCarbs m) \<and> wholeUpTo M (totalFat m)"
    and M: "1 \<le> M" and b: "(length ws + length ms) * M \<le> 2 ^ 53"
    and d: "d \<in> set (aggregateForPeriod tz dates ws ms)"
  shows "DayStats.caloriesIn d \<in> \<int> \<and> \<bar>DayStats.caloriesIn d\<bar> \<le> of_nat (length ms * M)"
    and "DayStats.caloriesOut d \<in> \<int> \<and> \<bar>DayStats.caloriesOut d\<bar> \<le> of_nat (length ws * M)"
    and "DayStats.protein d \<in> \<int> \<and> \<bar>DayStats.protein d\<bar> \<le> of_nat (length ms * M)"
    and "DayStats.carbs d \<in> \<int> \<and> \<bar>DayStats.carbs d\<bar> \<le> of_nat (length ms * M)"
    and "DayStats.fat d \<in> \<int> \<and> \<bar>DayStats.fat d\<bar> \<le> of_nat (length ms * M)"
    and "DayStats.workoutMinutes d \<in> \<int> \<and> \<bar>DayStats.workoutMinutes d\<bar> \<le> of_nat (length ws * M)"
    and "DayStats.workoutCount d \<in> \<int> \<and> \<bar>DayStats.workoutCount d\<bar> \<le> of_nat (length ws * M)"
    and "DayStats.balance d = DayStats.caloriesIn d - DayStats.caloriesOut d"
proof -
  from d obtain day where day: "day \<in> set dates"
    and dd: "d = (let ds = format day;
           dayWorkouts = filter (\<lambda>w. isWorkoutOnDate tz w day) ws;
           dayMeals = filter (\<lambda>m. Meal.date m = ds) ms;
           caloriesIn = foldl (\<lambda>s m. jsAdd s (totalCalories m)) 0 dayMeals;
           caloriesOut = foldl (\<lambda>s w. jsAdd s (caloriesBurned w)) 0 dayWorkouts;
           protein = foldl (\<lambda>s m. jsAdd s (totalProtein m)) 0 dayMeals;
           carbs = foldl (\<lambda>s m. jsAdd s (totalCarbs m)) 0 dayMeals;
           fat = foldl (\<lambda>s m. jsAdd s (totalFat m)) 0 dayMeals;
           workoutMinutes = foldl (\<lambda>s w. jsAdd s (duration w)) 0 dayWorkouts
       in \<lparr>DayStats.date = day,
           caloriesIn = caloriesIn,
           caloriesOut = caloriesOut,
           balance = jsSub caloriesIn caloriesOut,
           protein = protein,
           carbs = carbs,
           fat = fat,
           workoutMinutes = workoutMinutes,
           workoutCount = of_nat (length dayWorkouts),
           workouts = dayWorkouts\<rparr>)"
    unfolding aggregateForPeriod_def by auto
  define P :: "Workout \<Rightarrow> bool" where "P = (\<lambda>w. isWorkoutOnDate tz w day)"
  define Q :: "Meal \<Rightarrow> bool" where "Q = (\<lambda>m. Meal.date m = format day)"
  have bw: "(of_nat (length ws) :: rat) * of_nat M \<le> 2 ^ 53"
  proof -
    have "length ws * M \<le> 2 ^ 53" using b by (simp add: algebra_simps)
    from of_nat_le_rat[OF this] show ?thesis by simp
  qed
  have bm: "(of_nat (length ms) :: rat) * of_nat M \<le> 2 ^ 53"
  proof -
    have "length ms * M \<le> 2 ^ 53" using b by (simp add: algebra_simps)
    from of_nat_le_rat[OF this] show ?thesis by simp
  qed
  have bb: "(of_nat (length ws * M) :: rat) + of_nat (length ms * M) \<le> 2 ^ 53"
    using of_nat_le_rat[OF b] by (simp add: algebra_simps)
  note cin = day_sum[of ms totalCalories "of_nat M" Q, OF _ bm]
  note cout = day_sum[of ws caloriesBurned "of_nat M" P, OF _ bw]
  note pr = day_sum[of ms totalProtein "of_nat M" Q, OF _ bm]
  note ca = day_sum[of ms totalCarbs "of_nat M" Q, OF _ bm]
  note fa = day_sum[of ms totalFat "of_nat M" Q, OF _ bm]
  note mi = day_sum[of ws duration "of_nat M" P, OF _ bw]
  have hm: "\<forall>m\<in>set ms. totalCalories m \<in> \<int> \<and> \<bar>totalCalories m\<bar> \<le> of_nat M"
    "\<forall>m\<in>set ms. totalProtein m \<in> \<int> \<and> \<bar>totalProtein m\<bar> \<le> of_nat M"
    "\<forall>m\<in>set ms. totalCarbs m \<in> \<int> \<and> \<bar>totalCarbs m\<bar> \<le> of_nat M"
    "\<forall>m\<in>set ms. totalFat m \<in> \<int> \<and> \<bar>totalFat m\<bar> \<le> of_nat M"
    using ms by (auto simp: wholeUpTo_def intro: whole_Ints)
  have hw: "\<forall>w\<in>set ws. caloriesBurned w \<in> \<int> \<and> \<bar>caloriesBurned w\<bar> \<le> of_nat M"
    "\<forall>w\<in>set ws. duration w \<in> \<int> \<and> \<bar>duration w\<bar> \<le> of_nat M"
    using ws by (auto simp: wholeUpTo_def intro: whole_Ints)
  have f1: "DayStats.caloriesIn d = sum_list (map totalCalories (filter Q ms))"
    using cin(1)[OF hm(1)] by (simp add: dd Let_def Q_def)
  have f2: "DayStats.caloriesOut d = sum_list (map caloriesBurned (filter P ws))"
    using cout(1)[OF hw(1)] by (simp add: dd Let_def P_def)
  show i: "DayStats.caloriesIn d \<in> \<int> \<and> \<bar>DayStats.caloriesIn d\<bar> \<le> of_nat (length ms * M)"
    unfolding f1 using cin(2,3)[OF hm(1)] by simp
  show o: "DayStats.caloriesOut d \<in> \<int> \<and> \<bar>DayStats.caloriesOut d\<bar> \<le> of_nat (length ws * M)"
    unfolding f2 using cout(2,3)[OF hw(1)] by simp
  show "DayStats.protein d \<in> \<int> \<and> \<bar>DayStats.protein d\<bar> \<le> of_nat (length ms * M)"
    using pr[OF hm(2)] by (simp add: dd Let_def Q_def)
  show "DayStats.carbs d \<in> \<int> \<and> \<bar>DayStats.carbs d\<bar> \<le> of_nat (length ms * M)"
    using ca[OF hm(3)] by (simp add: dd Let_def Q_def)
  show "DayStats.fat d \<in> \<int> \<and> \<bar>DayStats.fat d\<bar> \<le> of_nat (length ms * M)"
    using fa[OF hm(4)] by (simp add: dd Let_def Q_def)
  show "DayStats.workoutMinutes d \<in> \<int> \<and> \<bar>DayStats.workoutMinutes d\<bar> \<le> of_nat (length ws * M)"
    using mi[OF hw(2)] by (simp add: dd Let_def P_def)
  show "DayStats.workoutCount d \<in> \<int> \<and> \<bar>DayStats.workoutCount d\<bar> \<le> of_nat (length ws * M)"
  proof -
    have "length (filter P ws) \<le> length ws * M"
      using length_filter_le[of P ws] M
      by (metis le_trans mult.right_neutral mult_le_mono2)
    from of_nat_le_rat[OF this] show ?thesis
      by (simp add: dd Let_def P_def)
  qed
  have "DayStats.balance d = fl (DayStats.caloriesIn d - DayStats.caloriesOut d)"
    by (simp add: dd Let_def jsSub_def)
  also have "\<dots> = DayStats.caloriesIn d - DayStats.caloriesOut d"
  proof (rule fl_Ints)
    show "DayStats.caloriesIn d - DayStats.caloriesOut d \<in> \<int>" using i o by simp
    show "\<bar>DayStats.caloriesIn d - DayStats.caloriesOut d\<bar> \<le> 2 ^ 53"
      using i o bb by linarith
  qed
  finally show "DayStats.balance d = DayStats.caloriesIn d - DayStats.caloriesOut d" .
qed

text \<open>
  C6, as amended: when the calories, grams and minutes of every workout and meal are whole
  numbers of magnitude at most \<open>M\<close>, and the number of days times the number of records
  times \<open>M\<close> is at most \<open>2 ^ 53\<close>, every total of the period is the sum of the per-day
  field over the days of the period; the balance of each day is its calories consumed minus
  its calories burned, and the balance of the period is the period's calories consumed
  minus its calories burned, which is the sum of the balances of the days. Nothing clamps
  it: it is a number of either sign.
\<close>

theorem period_totals:
  assumes ws: "\<forall>w\<in>set ws. wholeUpTo M (caloriesBurned w) \<and> wholeUpTo M (duration w)"
    and ms: "\<forall>m\<in>set ms. wholeUpTo M (totalCalories m) \<and> wholeUpTo M (totalProtein m) \<and>
               wholeUpTo M (totalCarbs m) \<and> wholeUpTo M (totalFat m)"
    and M: "1 \<le> M" and b: "length dates * (length ws + length ms) * M \<le> 2 ^ 53"
  shows "let periodData = aggregateForPeriod tz dates ws ms; ts = totalStats periodData in
     Totals.caloriesIn ts = sum_list (map DayStats.caloriesIn periodData) \<and>
     Totals.caloriesOut ts = sum_list (map DayStats.caloriesOut periodData) \<and>
     Totals.protein ts = sum_list (map DayStats.protein periodData) \<and>
     Totals.carbs ts = sum_list (map DayStats.carbs periodData) \<and>
     Totals.fat ts = sum_list (map DayStats.fat periodData) \<and>
     Totals.workoutMinutes ts = sum_list (map DayStats.workoutMinutes periodData) \<and>
     Totals.workoutCount ts = sum_list (map DayStats.workoutCount periodData) \<and>
     map DayStats.balance periodData =
       map (\<lambda>d. DayStats.caloriesIn d - DayStats.caloriesOut d) periodData \<and>
     periodBalance ts = Totals.caloriesIn ts - Totals.caloriesOut ts \<and>
     periodBalance ts = sum_list (map DayStats.balance periodData)"
proof -
  define pd where "pd = aggregateForPeriod tz dates ws ms"
  define n where "n = length dates"
  have len: "length pd = n" by (simp add: pd_def n_def aggregateForPeriod_def)
  have day: "(length ws + length ms) * M \<le> 2 ^ 53" if "d \<in> set pd" for d
  proof -
    from that len have "1 \<le> n" by (cases pd) auto
    then have "1 * ((length ws + length ms) * M) \<le> n * ((length ws + length ms) * M)"
      by (rule mult_le_mono1)
    also have "\<dots> = length dates * (length ws + length ms) * M"
      by (simp only: n_def mult.assoc)
    finally show ?thesis using b by (simp only: mult_1 le_trans)
  qed
  note df = day_fields[OF ws ms M day, of _ _ tz dates, folded pd_def]
  have bw: "(of_nat (length pd) :: rat) * of_nat (length ws * M) \<le> 2 ^ 53"
  proof -
    have "n * (length ws * M) \<le> n * (length ws + length ms) * M" by (simp add: algebra_simps)
    also have "\<dots> \<le> 2 ^ 53" using b by (simp only: n_def)
    finally show ?thesis using of_nat_le_rat[of "n * (length ws * M)" "2 ^ 53"] by (simp add: len)
  qed
  have bm: "(of_nat (length pd) :: rat) * of_nat (length ms * M) \<le> 2 ^ 53"
  proof -
    have "n * (length ms * M) \<le> n * (length ws + length ms) * M" by (simp add: algebra_simps)
    also have "\<dots> \<le> 2 ^ 53" using b by (simp only: n_def)
    finally show ?thesis using of_nat_le_rat[of "n * (length ms * M)" "2 ^ 53"] by (simp add: len)
  qed
  have bb: "(of_nat (length pd) :: rat) * of_nat (length ms * M) +
      of_nat (length pd) * of_nat (length ws * M) \<le> 2 ^ 53"
    using of_nat_le_rat[OF b] by (simp add: len n_def algebra_simps)
  note cin = period_sum[of pd DayStats.caloriesIn, OF _ bm]
  note cout = period_sum[of pd DayStats.caloriesOut, OF _ bw]
  have t1: "Totals.caloriesIn (totalStats pd) = sum_list (map DayStats.caloriesIn pd)"
    unfolding totalStats_folds using cin(1) df(1) by simp
  have t2: "Totals.caloriesOut (totalStats pd) = sum_list (map DayStats.caloriesOut pd)"
    unfolding totalStats_folds using cout(1) df(2) by simp
  have t3: "Totals.protein (totalStats pd) = sum_list (map DayStats.protein pd)"
    unfolding totalStats_folds
    using period_sum(1)[of pd DayStats.protein, OF _ bm] df(3) by simp
  have t4: "Totals.carbs (totalStats pd) = sum_list (map DayStats.carbs pd)"
    unfolding totalStats_folds
    using period_sum(1)[of pd DayStats.carbs, OF _ bm] df(4) by simp
  have t5: "Totals.fat (totalStats pd) = sum_list (map DayStats.fat pd)"
    unfolding totalStats_folds
    using period_sum(1)[of pd DayStats.fat, OF _ bm] df(5) by simp
  have t6: "Totals.workoutMinutes (totalStats pd) = sum_list (map DayStats.workoutMinutes pd)"
    unfolding totalStats_folds
    using period_sum(1)[of pd DayStats.workoutMinutes, OF _ bw] df(6) by simp
  have t7: "Totals.workoutCount (totalStats pd) = sum_list (map DayStats.workoutCount pd)"
    unfolding totalStats_folds
    using period_sum(1)[of pd DayStats.workoutCount, OF _ bw] df(7) by simp
  have t8: "map DayStats.balance pd = map (\<lambda>d. DayStats.caloriesIn d - DayStats.caloriesOut d) pd"
    using df(8) by simp
  have "periodBalance (totalStats pd) =
      fl (sum_list (map DayStats.caloriesIn pd) - sum_list (map DayStats.caloriesOut pd))"
    by (simp add: periodBalance_def jsSub_def t1 t2)
  also have "\<dots> = sum_list (map DayStats.caloriesIn pd) - sum_list (map DayStats.caloriesOut pd)"
  proof (rule fl_Ints)
    have i: "sum_list (map DayStats.caloriesIn pd) \<in> \<int>"
      "\<bar>sum_list (map DayStats.caloriesIn pd)\<bar> \<le> of_nat (length pd) * of_nat (length ms * M)"
      using cin(2,3) df(1) by simp_all
    have o: "sum_list (map DayStats.caloriesOut pd) \<in> \<int>"
      "\<bar>sum_list (map DayStats.caloriesOut pd)\<bar> \<le> of_nat (length pd) * of_nat (length ws * M)"
      using cout(2,3) df(2) by simp_all
    show "sum_list (map DayStats.caloriesIn pd) - sum_list (map DayStats.caloriesOut pd) \<in> \<int>"
      using i(1) o(1) by simp
    show "\<bar>sum_list (map DayStats.caloriesIn pd) - sum_list (map DayStats.caloriesOut pd)\<bar> \<le> 2 ^ 53"
      using i(2) o(2) bb by linarith
  qed
  finally have t9: "periodBalance (totalStats pd) =
      sum_list (map DayStats.caloriesIn pd) - sum_list (map DayStats.caloriesOut pd)" .
  have t10: "sum_list (map DayStats.balance pd) =
      sum_list (map DayStats.caloriesIn pd) - sum_list (map DayStats.caloriesOut pd)"
    unfolding t8 by (simp add: sum_list_subtractf)
  show ?thesis
    unfolding Let_def pd_def[symmetric]
    using t1 t2 t3 t4 t5 t6 t7 t8 t9 t10 by simp
qed

lemma week_formats:
  "map format weekDates = [''2024-01-01'', ''2024-01-02'', ''2024-01-03'', ''2024-01-04'',
     ''2024-01-05'', ''2024-01-06'', ''2024-01-07'']"
  by (simp add: weekDates_def evalDate)

lemma everyDay_on_week: "d \<in> set weekDates \<Longrightarrow> isWorkoutOnDate utc everyDay d"
proof -
  assume "d \<in> set weekDates"
  then have "format d \<in> set (map format weekDates)" by simp
  then have "''2024-01-01'' \<le> format d" unfolding week_formats by auto
  then show ?thesis
    by (simp add: isWorkoutOnDate_def everyDay_def gymSession_def truthy_def)
qed

lemma week_data:
  "map DayStats.caloriesIn (aggregateForPeriod utc weekDates [everyDay] weekMeals)
     = [2000, 2000, 2000, 2000, 2000, 2000, 2000]"
  "map DayStats.caloriesOut (aggregateForPeriod utc weekDates [everyDay] weekMeals)
     = [300, 300, 300, 300, 300, 300, 300]"
proof -
  have c: "caloriesBurned everyDay = 300" by (simp add: everyDay_def gymSession_def)
  have "map DayStats.caloriesOut (aggregateForPeriod utc weekDates [everyDay] weekMeals)
     = map (\<lambda>d. 300) weekDates"
    by (simp add: aggregateForPeriod_def Let_def everyDay_on_week c jsAdd_def fl_numeral)
  then show "map DayStats.caloriesOut (aggregateForPeriod utc weekDates [everyDay] weekMeals)
     = [300, 300, 300, 300, 300, 300, 300]"
    by (simp add: weekDates_def)
  have "map DayStats.caloriesIn (aggregateForPeriod utc weekDates [everyDay] weekMeals)
     = map (\<lambda>s. foldl (\<lambda>s m. jsAdd s (totalCalories m)) 0 (filter (\<lambda>m. Meal.date m = s) weekMeals))
         (map format weekDates)"
    by (simp add: aggregateForPeriod_def Let_def comp_def)
  also have "\<dots> = [2000, 2000, 2000, 2000, 2000, 2000, 2000]"
    unfolding week_formats by (simp add: weekMeals_def mealOn_def jsAdd_def fl_numeral)
  finally show "map DayStats.caloriesIn (aggregateForPeriod utc weekDates [everyDay] weekMeals)
     = [2000, 2000, 2000, 2000, 2000, 2000, 2000]" .
qed

lemma map_difference:
  "map (\<lambda>d. f d - g d) xs = map (\<lambda>(a, b). a - b) (zip (map f xs) (map g xs))"
  by (induction xs) simp_all

lemma week_records:
  "\<forall>w\<in>set [everyDay]. wholeUpTo 2000 (caloriesBurned w) \<and> wholeUpTo 2000 (duration w)"
  "\<forall>m\<in>set weekMeals. wholeUpTo 2000 (totalCalories m) \<and> wholeUpTo 2000 (totalProtein m) \<and>
     wholeUpTo 2000 (totalCarbs m) \<and> wholeUpTo 2000 (totalFat m)"
  "length weekDates * (length [everyDay] + length weekMeals) * 2000 \<le> 2 ^ 53"
  "length [localMidnight 2024 1 8] * (length [everyDay] + length weekMeals) * 2000 \<le> 2 ^ 53"
  by (simp_all add: wholeUpTo_def everyDay_def gymSession_def weekMeals_def mealOn_def weekDates_def)

theorem period_totals_witness:
  "list_all (\<lambda>w. wholeUpTo 2000 (caloriesBurned w) \<and> wholeUpTo 2000 (duration w)) [everyDay] \<and>
   list_all (\<lambda>m. wholeUpTo 2000 (totalCalories m) \<and> wholeUpTo 2000 (totalProtein m) \<and>
     wholeUpTo 2000 (totalCarbs m) \<and> wholeUpTo 2000 (totalFat m)) weekMeals \<and>
   length weekDates * (length [everyDay] + length weekMeals) * 2000 \<le> 2 ^ 53 \<and>
   Totals.caloriesIn (totalStats (aggregateForPeriod utc weekDates [everyDay] weekMeals)) = 14000 \<and>
   Totals.caloriesOut (totalStats (aggregateForPeriod utc weekDates [everyDay] weekMeals)) = 2100 \<and>
   periodBalance (totalStats (aggregateForPeriod utc weekDates [everyDay] weekMeals)) = 11900 \<and>
   map DayStats.balance (aggregateForPeriod utc weekDates [everyDay] weekMeals)
     = [1700, 1700, 1700, 1700, 1700, 1700, 1700] \<and>
   periodBalance (totalStats (aggregateForPeriod utc [localMidnight 2024 1 8] [everyDay] weekMeals))
     = - 300"
proof -
  have one: "(1::nat) \<le> 2000" by simp
  note t = period_totals[OF week_records(1,2) one week_records(3), of utc, unfolded Let_def]
  have b: "map DayStats.balance (aggregateForPeriod utc weekDates [everyDay] weekMeals)
     = [1700, 1700, 1700, 1700, 1700, 1700, 1700]"
  proof -
    have "map DayStats.balance (aggregateForPeriod utc weekDates [everyDay] weekMeals)
      = map (\<lambda>(i, out). i - out)
          (zip (map DayStats.caloriesIn (aggregateForPeriod utc weekDates [everyDay] weekMeals))
               (map DayStats.caloriesOut (aggregateForPeriod utc weekDates [everyDay] weekMeals)))"
      using t by (simp only: map_difference)
    then show ?thesis unfolding week_data by simp
  qed
  have f: "format (localMidnight 2024 1 8) = ''2024-01-08''" by (simp add: evalDate)
  have late: "map DayStats.caloriesIn (aggregateForPeriod utc [localMidnight 2024 1 8] [everyDay] weekMeals) = [0]"
    "map DayStats.caloriesOut (aggregateForPeriod utc [localMidnight 2024 1 8] [everyDay] weekMeals) = [300]"
    by (simp_all add: aggregateForPeriod_def Let_def f isWorkoutOnDate_def truthy_def weekMeals_def
        mealOn_def everyDay_def gymSession_def jsAdd_def fl_numeral)
  note u = period_totals[OF week_records(1,2) one week_records(4), of utc, unfolded Let_def]
  have "periodBalance (totalStats (aggregateForPeriod utc [localMidnight 2024 1 8] [everyDay] weekMeals))
     = - 300"
    using u unfolding late by simp
  with t b week_records(1-3) show ?thesis by (simp add: week_data list_all_iff)
qed

text \<open>
  With fractional values, which the meal form accepts, the sums are rounded, and the
  claim fails as it stands. A meal of 2011.1 kcal and a workout of 250 kcal on one day and a
  meal of 2126.8 kcal on the next: the calories consumed in the period are 4137.9, not the
  sum of the two numbers, and the balance of the period, 3887.8999999999996, is not the
  sum of the balances of the two days, which is 3887.9 exactly and in binary64.
\<close>

lemma fl_meal_inputs:
  "fl (20111 / 10) = 4422455669240627 / 2199023255552"
  "fl (10634 / 5) = 2338441329953997 / 1099511627776"
  by (subst fl_eq[where e = "- 42"], simp_all add: power_int_minus roundEven_eval Let_def)
     (subst fl_eq[where e = "- 41"], simp_all add: power_int_minus roundEven_eval Let_def)

lemma rounded_sums:
  "jsAdd 0 (4422455669240627 / 2199023255552) = 4422455669240627 / 2199023255552"
  "jsAdd 0 (2338441329953997 / 1099511627776) = 2338441329953997 / 1099511627776"
  "jsAdd (4422455669240627 / 2199023255552) (2338441329953997 / 1099511627776)
     = 2274834582287155 / 549755813888"
  "jsSub (2274834582287155 / 549755813888) 250 = 2137395628815155 / 549755813888"
  "jsSub (4422455669240627 / 2199023255552) 250 = 3872699855352627 / 2199023255552"
  "jsSub (2338441329953997 / 1099511627776) 0 = 2338441329953997 / 1099511627776"
  "jsAdd 0 (3872699855352627 / 2199023255552) = 3872699855352627 / 2199023255552"
  "jsAdd (3872699855352627 / 2199023255552) (2338441329953997 / 1099511627776)
     = 8549582515260621 / 2199023255552"
proof -
  show "jsAdd 0 (4422455669240627 / 2199023255552) = 4422455669240627 / 2199023255552"
    using fl_exact[of 4422455669240627 "- 41"] by (simp add: jsAdd_def power_int_minus)
  show "jsAdd 0 (2338441329953997 / 1099511627776) = 2338441329953997 / 1099511627776"
    using fl_exact[of 2338441329953997 "- 40"] by (simp add: jsAdd_def power_int_minus)
  show "jsAdd (4422455669240627 / 2199023255552) (2338441329953997 / 1099511627776)
     = 2274834582287155 / 549755813888"
    unfolding jsAdd_def by (subst fl_eq[where e = "- 40"]) (simp_all add: fl_eval)
  show "jsSub (2274834582287155 / 549755813888) 250 = 2137395628815155 / 549755813888"
    using fl_exact[of 2137395628815155 "- 39"] by (simp add: jsSub_def power_int_minus)
  show "jsSub (4422455669240627 / 2199023255552) 250 = 3872699855352627 / 2199023255552"
    using fl_exact[of 3872699855352627 "- 41"] by (simp add: jsSub_def power_int_minus)
  show "jsSub (2338441329953997 / 1099511627776) 0 = 2338441329953997 / 1099511627776"
    using fl_exact[of 2338441329953997 "- 40"] by (simp add: jsSub_def power_int_minus)
  show "jsAdd 0 (3872699855352627 / 2199023255552) = 3872699855352627 / 2199023255552"
    using fl_exact[of 3872699855352627 "- 41"] by (simp add: jsAdd_def power_int_minus)
  show "jsAdd (3872699855352627 / 2199023255552) (2338441329953997 / 1099511627776)
     = 8549582515260621 / 2199023255552"
    using fl_exact[of 8549582515260621 "- 41"] by (simp add: jsAdd_def power_int_minus)
qed

lemma twoDays_data:
  "map DayStats.caloriesIn (aggregateForPeriod utc twoDays [hike] [pasta, paella])
     = [4422455669240627 / 2199023255552, 2338441329953997 / 1099511627776]"
  "map DayStats.caloriesOut (aggregateForPeriod utc twoDays [hike] [pasta, paella]) = [250, 0]"
  "map DayStats.balance (aggregateForPeriod utc twoDays [hike] [pasta, paella])
     = [3872699855352627 / 2199023255552, 2338441329953997 / 1099511627776]"
proof -
  have f: "format (localMidnight 2024 1 1) = ''2024-01-01''"
    "format (localMidnight 2024 1 2) = ''2024-01-02''"
    by (simp_all add: evalDate)
  have w: "isWorkoutOnDate utc hike (localMidnight 2024 1 1)"
    "\<not> isWorkoutOnDate utc hike (localMidnight 2024 1 2)"
    by (simp_all add: isWorkoutOnDate_def f hike_def gymSession_def)
  have c: "caloriesBurned hike = 250" by (simp add: hike_def gymSession_def)
  have z: "jsAdd 0 250 = 250" by (simp add: jsAdd_def fl_numeral)
  show "map DayStats.caloriesIn (aggregateForPeriod utc twoDays [hike] [pasta, paella])
     = [4422455669240627 / 2199023255552, 2338441329953997 / 1099511627776]"
    by (simp add: aggregateForPeriod_def Let_def twoDays_def f pasta_def paella_def
        fl_meal_inputs rounded_sums)
  show "map DayStats.caloriesOut (aggregateForPeriod utc twoDays [hike] [pasta, paella]) = [250, 0]"
    by (simp add: aggregateForPeriod_def Let_def twoDays_def w c z)
  show "map DayStats.balance (aggregateForPeriod utc twoDays [hike] [pasta, paella])
     = [3872699855352627 / 2199023255552, 2338441329953997 / 1099511627776]"
    by (simp add: aggregateForPeriod_def Let_def twoDays_def f w c z pasta_def paella_def
        fl_meal_inputs rounded_sums)
qed

theorem period_balance_rounding_counterexample:
  "Totals.caloriesIn (totalStats (aggregateForPeriod utc twoDays [hike] [pasta, paella]))
     = 2274834582287155 / 549755813888 \<and>
   sum_list (map DayStats.caloriesIn (aggregateForPeriod utc twoDays [hike] [pasta, paella]))
     = 9099338329148621 / 2199023255552 \<and>
   periodBalance (totalStats (aggregateForPeriod utc twoDays [hike] [pasta, paella]))
     = 2137395628815155 / 549755813888 \<and>
   sum_list (map DayStats.balance (aggregateForPeriod utc twoDays [hike] [pasta, paella]))
     = 8549582515260621 / 2199023255552 \<and>
   foldl jsAdd 0 (map DayStats.balance (aggregateForPeriod utc twoDays [hike] [pasta, paella]))
     = 8549582515260621 / 2199023255552 \<and>
   Totals.caloriesIn (totalStats (aggregateForPeriod utc twoDays [hike] [pasta, paella]))
     \<noteq> sum_list (map DayStats.caloriesIn (aggregateForPeriod utc twoDays [hike] [pasta, paella])) \<and>
   periodBalance (totalStats (aggregateForPeriod utc twoDays [hike] [pasta, paella]))
     \<noteq> sum_list (map DayStats.balance (aggregateForPeriod utc twoDays [hike] [pasta, paella])) \<and>
   periodBalance (totalStats (aggregateForPeriod utc twoDays [hike] [pasta, paella]))
     \<noteq> foldl jsAdd 0 (map DayStats.balance (aggregateForPeriod utc twoDays [hike] [pasta, paella]))"
proof -
  define pd where "pd = aggregateForPeriod utc twoDays [hike] [pasta, paella]"
  have m: "foldl (\<lambda>s d. jsAdd s (f d)) 0 pd = foldl jsAdd 0 (map f pd)" for f :: "DayStats \<Rightarrow> number"
    by (simp add: foldl_map)
  have z: "jsAdd 0 250 = 250" "jsAdd 250 0 = 250" by (simp_all add: jsAdd_def fl_numeral)
  have i: "Totals.caloriesIn (totalStats pd) = 2274834582287155 / 549755813888"
    unfolding totalStats_folds by (simp add: m twoDays_data[folded pd_def] rounded_sums)
  have o: "Totals.caloriesOut (totalStats pd) = 250"
    unfolding totalStats_folds by (simp add: m twoDays_data[folded pd_def] z)
  have p: "periodBalance (totalStats pd) = 2137395628815155 / 549755813888"
    by (simp add: periodBalance_def i o rounded_sums)
  have s: "sum_list (map DayStats.balance pd) = 8549582515260621 / 2199023255552"
    "sum_list (map DayStats.caloriesIn pd) = 9099338329148621 / 2199023255552"
    by (simp_all add: twoDays_data[folded pd_def])
  have b: "foldl jsAdd 0 (map DayStats.balance pd) = 8549582515260621 / 2199023255552"
    by (simp add: twoDays_data[folded pd_def] rounded_sums)
  show ?thesis
    unfolding pd_def[symmetric] i p s b by simp
qed




section \<open>The streak\<close>

lemma streakLoop_prefix:
  "(\<And>i. i < n \<Longrightarrow> hasActivity tz ws ms (daysBack d i)) \<Longrightarrow>
   streakLoop tz ws ms s d = streakLoop tz ws ms (s + n) (daysBack d n)"
proof (induction n arbitrary: s d)
  case 0
  then show ?case by (simp add: daysBack_0)
next
  case (Suc n)
  from Suc.prems[of 0] have a: "hasActivity tz ws ms d" by (simp add: daysBack_0)
  have "streakLoop tz ws ms s d = streakLoop tz ws ms (s + 1) (addDays d (- 1))"
    using a by (subst streakLoop.simps) simp
  also have "\<dots> = streakLoop tz ws ms (s + 1 + n) (daysBack (addDays d (- 1)) n)"
    by (rule Suc.IH) (use Suc.prems in \<open>simp add: daysBack_shift\<close>)
  finally show ?case by (simp add: daysBack_shift)
qed

lemma streakLoop_stops:
  assumes "\<And>i. i < n \<Longrightarrow> hasActivity tz ws ms (daysBack d i)"
    and "\<not> hasActivity tz ws ms (daysBack d n)"
  shows "streakLoop tz ws ms s d = Some (s + n)"
proof -
  have "streakLoop tz ws ms s d = streakLoop tz ws ms (s + n) (daysBack d n)"
    by (rule streakLoop_prefix) (rule assms(1))
  also have "\<dots> = Some (s + n)"
    using assms(2) by (subst streakLoop.simps) simp
  finally show ?thesis .
qed

lemma streakLoop_Some:
  assumes "streakLoop tz ws ms s d = Some r"
  shows "\<exists>n. r = s + n \<and> \<not> hasActivity tz ws ms (daysBack d n) \<and>
     (\<forall>i<n. hasActivity tz ws ms (daysBack d i))"
proof (rule streakLoop.raw_induct[where P = "\<lambda>tz ws ms s d r.
     \<exists>n. r = s + n \<and> \<not> hasActivity tz ws ms (daysBack d n) \<and>
       (\<forall>i<n. hasActivity tz ws ms (daysBack d i))", OF _ assms])
  fix loop tz ws ms s d r
  assume IH: "\<And>tz ws ms s d r. loop tz ws ms s d = Some r \<Longrightarrow>
      \<exists>n. r = s + n \<and> \<not> hasActivity tz ws ms (daysBack d n) \<and>
        (\<forall>i<n. hasActivity tz ws ms (daysBack d i))"
    and step: "(if \<not> hasActivity tz ws ms d then Some s
      else loop tz ws ms (s + 1) (addDays d (- 1))) = Some r"
  show "\<exists>n. r = s + n \<and> \<not> hasActivity tz ws ms (daysBack d n) \<and>
     (\<forall>i<n. hasActivity tz ws ms (daysBack d i))"
  proof (cases "hasActivity tz ws ms d")
    case False
    with step have "r = s" by simp
    with False show ?thesis by (intro exI[of _ 0]) (simp add: daysBack_0)
  next
    case True
    with step have "loop tz ws ms (s + 1) (addDays d (- 1)) = Some r" by simp
    from IH[OF this] obtain n where n: "r = s + 1 + n"
      "\<not> hasActivity tz ws ms (daysBack (addDays d (- 1)) n)"
      "\<forall>i<n. hasActivity tz ws ms (daysBack (addDays d (- 1)) i)" by blast
    have "\<forall>i<Suc n. hasActivity tz ws ms (daysBack d i)"
    proof (intro allI impI)
      fix i assume "i < Suc n"
      then show "hasActivity tz ws ms (daysBack d i)"
        using True n(3) by (cases i) (simp_all add: daysBack_0 daysBack_shift)
    qed
    with n(1,2) show ?thesis
      by (intro exI[of _ "Suc n"]) (simp add: daysBack_shift)
  qed
qed


text \<open>
  C3: the streak is \<open>n\<close> exactly when today and the \<open>n - 1\<close> days before it each have a
  matching workout or a meal of that date, and the day \<open>n\<close> days before today has neither.
  In particular it is 0 exactly when today has no activity.
\<close>

theorem currentStreak_counts_active_days:
  "currentStreak tz ws ms today = Some n \<longleftrightarrow>
     (\<forall>i<n. hasActivity tz ws ms (daysBack today i)) \<and>
     \<not> hasActivity tz ws ms (daysBack today n)"
proof
  assume "currentStreak tz ws ms today = Some n"
  from streakLoop_Some[OF this[unfolded currentStreak_def]]
  show "(\<forall>i<n. hasActivity tz ws ms (daysBack today i)) \<and>
     \<not> hasActivity tz ws ms (daysBack today n)" by auto
next
  assume "(\<forall>i<n. hasActivity tz ws ms (daysBack today i)) \<and>
     \<not> hasActivity tz ws ms (daysBack today n)"
  then show "currentStreak tz ws ms today = Some n"
    unfolding currentStreak_def using streakLoop_stops[of n tz ws ms today 0] by simp
qed

lemma daysBack_examples:
  "daysBack (localMidnight 2024 1 10) 0 = localMidnight 2024 1 10"
  "daysBack (localMidnight 2024 1 10) 1 = localMidnight 2024 1 9"
  "daysBack (localMidnight 2024 1 10) 2 = localMidnight 2024 1 8"
  "daysBack (localMidnight 2024 1 10) 3 = localMidnight 2024 1 7"
  by (simp_all add: daysBack_def addDays_minus_1 prevDay_def localMidnight_def eval_nat_numeral)

lemma hasActivity_examples:
  "hasActivity utc [gymSession] [breakfast, dinner] (localMidnight 2024 1 10)"
  "hasActivity utc [gymSession] [breakfast, dinner] (localMidnight 2024 1 9)"
  "hasActivity utc [gymSession] [breakfast, dinner] (localMidnight 2024 1 8)"
  "\<not> hasActivity utc [gymSession] [breakfast, dinner] (localMidnight 2024 1 7)"
  "\<not> hasActivity utc [gymSession] [breakfast, dinner] (localMidnight 2024 1 12)"
proof -
  have f: "format (localMidnight 2024 1 10) = ''2024-01-10''"
    "format (localMidnight 2024 1 9) = ''2024-01-09''"
    "format (localMidnight 2024 1 8) = ''2024-01-08''"
    "format (localMidnight 2024 1 7) = ''2024-01-07''"
    "format (localMidnight 2024 1 12) = ''2024-01-12''"
    by (simp_all add: evalDate)
  show "hasActivity utc [gymSession] [breakfast, dinner] (localMidnight 2024 1 10)"
    "hasActivity utc [gymSession] [breakfast, dinner] (localMidnight 2024 1 9)"
    "hasActivity utc [gymSession] [breakfast, dinner] (localMidnight 2024 1 8)"
    "\<not> hasActivity utc [gymSession] [breakfast, dinner] (localMidnight 2024 1 7)"
    "\<not> hasActivity utc [gymSession] [breakfast, dinner] (localMidnight 2024 1 12)"
    by (simp_all add: hasActivity_def f isWorkoutOnDate_def gymSession_def breakfast_def dinner_def)
qed

lemma all_less_3: "(\<forall>i<3. P i) \<longleftrightarrow> P 0 \<and> P 1 \<and> P (2::nat)"
  by (auto simp: eval_nat_numeral less_Suc_eq)

theorem currentStreak_counts_active_days_witness:
  "currentStreak utc [gymSession] [breakfast, dinner] (localMidnight 2024 1 10) = Some 3 \<and>
   currentStreak utc [gymSession] [breakfast, dinner] (localMidnight 2024 1 12) = Some 0"
proof -
  have "currentStreak utc [gymSession] [breakfast, dinner] (localMidnight 2024 1 10) = Some 3"
    unfolding currentStreak_counts_active_days all_less_3 daysBack_examples
    by (simp add: hasActivity_examples)
  moreover have "currentStreak utc [gymSession] [breakfast, dinner] (localMidnight 2024 1 12) = Some 0"
    unfolding currentStreak_counts_active_days
    by (simp add: daysBack_0 hasActivity_examples)
  ultimately show ?thesis ..
qed









section \<open>Daily targets\<close>

text \<open>
  Each operation of \<open>calculateDailyTargets\<close> rounds its exact result to binary64. For
  operands of magnitude up to \<open>2 ^ 16\<close> a rounding moves the result by at most
  \<open>1 / 2 ^ 37\<close>, so the computed energy and the computed gram quotients stay within
  \<open>1 / 2 ^ 31\<close> of the exact ones, and \<open>Math.round\<close> gives the same integer unless the
  exact quantity is that close to a half-integer.
\<close>

lemma Math_round_stable:
  assumes "\<bar>y - x\<bar> \<le> 1 / 2 ^ 31" and "clearOfHalf x"
  shows "Math_round y = Math_round x"
proof -
  define k where "k = \<lfloor>x + 1 / 2\<rfloor>"
  define g :: rat where "g = 1 / 2 ^ 31"
  have r: "2 * g \<le> x + 1 / 2 - of_int k" "x + 1 / 2 - of_int k \<le> 1 - 2 * g"
    using assms(2) by (simp_all add: clearOfHalf_def Let_def k_def Math_round_def g_def)
  have g: "0 < g" by (simp add: g_def)
  have yx: "\<bar>y - x\<bar> \<le> g" using assms(1) by (simp only: g_def)
  have "of_int k \<le> y + 1 / 2" "y + 1 / 2 < of_int k + 1"
    using r yx g by linarith+
  then have "\<lfloor>y + 1 / 2\<rfloor> = k" by (intro floor_unique)
  then show ?thesis by (simp add: Math_round_def k_def)
qed

lemma Math_round_near:
  assumes "\<bar>y - x\<bar> \<le> 1 / 2 ^ 31"
  shows "\<bar>Math_round y - Math_round x\<bar> \<le> 1"
proof -
  have "(1 / 2 ^ 31 :: rat) \<le> 1" by simp
  with assms have yx: "y \<le> x + 1" "x \<le> y + 1" by linarith+
  have "\<lfloor>y + 1 / 2\<rfloor> \<le> \<lfloor>(x + 1 / 2) + of_int 1\<rfloor>" using yx(1) by (intro floor_mono) simp
  then have u: "\<lfloor>y + 1 / 2\<rfloor> \<le> \<lfloor>x + 1 / 2\<rfloor> + 1" by (simp only: floor_add_int)
  have "\<lfloor>x + 1 / 2\<rfloor> \<le> \<lfloor>(y + 1 / 2) + of_int 1\<rfloor>" using yx(2) by (intro floor_mono) simp
  then have l: "\<lfloor>x + 1 / 2\<rfloor> \<le> \<lfloor>y + 1 / 2\<rfloor> + 1" by (simp only: floor_add_int)
  from u l show ?thesis unfolding Math_round_def by linarith
qed

lemma Math_round_bounds: "of_int (Math_round x) \<le> x + 1 / 2" "x - 1 / 2 < of_int (Math_round x)"
  unfolding Math_round_def by linarith+

lemma fl_near: "\<bar>x\<bar> \<le> 65536 \<Longrightarrow> \<bar>fl x - x\<bar> \<le> 1 / 2 ^ 37"
proof -
  assume "\<bar>x\<bar> \<le> 65536"
  then have "\<bar>x\<bar> / 2 ^ 53 \<le> 65536 / 2 ^ 53" by (intro divide_right_mono) simp_all
  with fl_error[of x] show ?thesis by simp
qed

lemma fl_mifflin_constant: "fl (625 / 100) = 625 / 100"
  using fl_exact[of 25 "- 2"] by (simp add: power_int_minus)

lemma bmr_error:
  fixes W H A :: rat
  assumes "0 \<le> W" "W \<le> 1000" "0 \<le> H" "H \<le> 1000" "0 \<le> A" "A \<le> 1000"
  shows "\<bar>jsAdd (jsSub (jsAdd (jsMul 10 W) (jsMul (fl (625 / 100)) H)) (jsMul 5 A)) 5
           - (10 * W + (625 / 100) * H - 5 * A + 5)\<bar> \<le> 6 * (1 / 2 ^ 37)"
    and "\<bar>jsSub (jsSub (jsAdd (jsMul 10 W) (jsMul (fl (625 / 100)) H)) (jsMul 5 A)) 161
           - (10 * W + (625 / 100) * H - 5 * A - 161)\<bar> \<le> 6 * (1 / 2 ^ 37)"
proof -
  define a1 where "a1 = jsMul 10 W"
  define a2 where "a2 = jsMul (fl (625 / 100)) H"
  define a3 where "a3 = jsAdd a1 a2"
  define a4 where "a4 = jsMul 5 A"
  define a5 where "a5 = jsSub a3 a4"
  define d :: rat where "d = 1 / 2 ^ 37"
  define h :: rat where "h = (625 / 100) * H"
  have d: "0 < d" "d < 1" by (simp_all add: d_def)
  have h: "0 \<le> h" "h \<le> 6250" using assms by (simp_all add: h_def)
  have e1: "\<bar>a1 - 10 * W\<bar> \<le> d"
    unfolding a1_def jsMul_def d_def by (rule fl_near) (use assms in linarith)
  have e2: "\<bar>a2 - h\<bar> \<le> d"
    unfolding a2_def jsMul_def d_def fl_mifflin_constant h_def[symmetric]
    by (rule fl_near) (use h in linarith)
  have e3: "\<bar>a3 - (a1 + a2)\<bar> \<le> d"
    unfolding a3_def jsAdd_def d_def
    by (rule fl_near) (use assms h e1 e2 d in linarith)
  have e4: "\<bar>a4 - 5 * A\<bar> \<le> d"
    unfolding a4_def jsMul_def d_def by (rule fl_near) (use assms in linarith)
  have e5: "\<bar>a5 - (a3 - a4)\<bar> \<le> d"
    unfolding a5_def jsSub_def d_def
    by (rule fl_near) (use assms h e1 e2 e3 e4 d in linarith)
  have m: "\<bar>jsAdd a5 5 - (a5 + 5)\<bar> \<le> d"
    unfolding jsAdd_def d_def
    by (rule fl_near) (use assms h e1 e2 e3 e4 e5 d in linarith)
  have f: "\<bar>jsSub a5 161 - (a5 - 161)\<bar> \<le> d"
    unfolding jsSub_def d_def
    by (rule fl_near) (use assms h e1 e2 e3 e4 e5 d in linarith)
  have "\<bar>jsAdd a5 5 - (10 * W + h - 5 * A + 5)\<bar> \<le> 6 * d"
    using e1 e2 e3 e4 e5 m by linarith
  then show "\<bar>jsAdd (jsSub (jsAdd (jsMul 10 W) (jsMul (fl (625 / 100)) H)) (jsMul 5 A)) 5
           - (10 * W + (625 / 100) * H - 5 * A + 5)\<bar> \<le> 6 * (1 / 2 ^ 37)"
    by (simp only: a1_def a2_def a3_def a4_def a5_def d_def h_def)
  have "\<bar>jsSub a5 161 - (10 * W + h - 5 * A - 161)\<bar> \<le> 6 * d"
    using e1 e2 e3 e4 e5 f by linarith
  then show "\<bar>jsSub (jsSub (jsAdd (jsMul 10 W) (jsMul (fl (625 / 100)) H)) (jsMul 5 A)) 161
           - (10 * W + (625 / 100) * H - 5 * A - 161)\<bar> \<le> 6 * (1 / 2 ^ 37)"
    by (simp only: a1_def a2_def a3_def a4_def a5_def d_def h_def)
qed

lemma tdee_error:
  assumes b: "\<bar>b - B\<bar> \<le> 6 * (1 / 2 ^ 37)" and B: "\<bar>B\<bar> \<le> 16255" and m: "1 \<le> m" "m \<le> 2"
  shows "\<bar>jsMul b (fl m) - B * m\<bar> \<le> 20 * (1 / 2 ^ 37)"
proof -
  define d :: rat where "d = 1 / 2 ^ 37"
  define M where "M = fl m"
  have d: "0 < d" "d < 1" by (simp_all add: d_def)
  have "\<bar>M - m\<bar> \<le> \<bar>m\<bar> / 2 ^ 53" unfolding M_def by (rule fl_error)
  also have "\<dots> \<le> 2 / 2 ^ 53" using m by (intro divide_right_mono) simp_all
  finally have eM: "\<bar>M - m\<bar> \<le> 2 / 2 ^ 53" .
  moreover have "2 / 2 ^ 53 \<le> (1::rat)" by simp
  ultimately have M3: "\<bar>M\<bar> \<le> 3" using m by linarith
  have t1: "\<bar>(b - B) * M\<bar> \<le> 6 * d * 3"
    unfolding abs_mult using b M3 by (intro mult_mono) (simp_all add: d_def)
  have "\<bar>B * (M - m)\<bar> \<le> 16255 * (2 / 2 ^ 53)"
    unfolding abs_mult using B eM by (intro mult_mono) simp_all
  also have "\<dots> \<le> d" by (simp add: d_def)
  finally have t2: "\<bar>B * (M - m)\<bar> \<le> d" .
  have split: "b * M - B * m = (b - B) * M + B * (M - m)" by (simp add: algebra_simps)
  have e: "\<bar>b * M - B * m\<bar> \<le> 19 * d"
    unfolding split using t1 t2 by linarith
  have "\<bar>B * m\<bar> \<le> 16255 * 2"
    unfolding abs_mult using B m by (intro mult_mono) simp_all
  with e d have "\<bar>b * M\<bar> \<le> 65536" by linarith
  then have "\<bar>fl (b * M) - b * M\<bar> \<le> d" unfolding d_def by (rule fl_near)
  with e have "\<bar>fl (b * M) - B * m\<bar> \<le> 20 * d" by linarith
  then show ?thesis by (simp only: jsMul_def M_def d_def)
qed

lemma adjust_error:
  assumes t: "\<bar>t - T\<bar> \<le> 20 * (1 / 2 ^ 37)" and T: "\<bar>T\<bar> \<le> 32510"
  shows "\<bar>jsSub t 400 - (T - 400)\<bar> \<le> 21 * (1 / 2 ^ 37)"
    and "\<bar>jsAdd t 300 - (T + 300)\<bar> \<le> 21 * (1 / 2 ^ 37)"
proof -
  define d :: rat where "d = 1 / 2 ^ 37"
  have d: "0 < d" "d < 1" by (simp_all add: d_def)
  note t' = t[folded d_def]
  have "\<bar>fl (t - 400) - (t - 400)\<bar> \<le> d"
    unfolding d_def by (rule fl_near) (use t' T d in linarith)
  with t' have "\<bar>fl (t - 400) - (T - 400)\<bar> \<le> 21 * d" by linarith
  then show "\<bar>jsSub t 400 - (T - 400)\<bar> \<le> 21 * (1 / 2 ^ 37)"
    by (simp only: jsSub_def d_def)
  have "\<bar>fl (t + 300) - (t + 300)\<bar> \<le> d"
    unfolding d_def by (rule fl_near) (use t' T d in linarith)
  with t' have "\<bar>fl (t + 300) - (T + 300)\<bar> \<le> 21 * d" by linarith
  then show "\<bar>jsAdd t 300 - (T + 300)\<bar> \<le> 21 * (1 / 2 ^ 37)"
    by (simp only: jsAdd_def d_def)
qed

lemma macro_error:
  fixes c q k :: rat
  assumes c: "\<bar>c\<bar> \<le> 40000" and q: "0 \<le> q" "q \<le> 1" and k: "1 \<le> k"
  shows "\<bar>jsDiv (jsMul c (fl q)) k - c * q / k\<bar> \<le> 3 * (1 / 2 ^ 37)"
proof -
  define d :: rat where "d = 1 / 2 ^ 37"
  define Q where "Q = fl q"
  define x1 where "x1 = fl (c * Q)"
  have d: "0 < d" "d < 1" by (simp_all add: d_def)
  have "\<bar>Q - q\<bar> \<le> \<bar>q\<bar> / 2 ^ 53" unfolding Q_def by (rule fl_error)
  also have "\<dots> \<le> 1 / 2 ^ 53" using q by (intro divide_right_mono) simp_all
  finally have eQ: "\<bar>Q - q\<bar> \<le> 1 / 2 ^ 53" .
  have "\<bar>c * Q - c * q\<bar> = \<bar>c\<bar> * \<bar>Q - q\<bar>"
    by (simp add: abs_mult[symmetric] algebra_simps)
  also have "\<dots> \<le> 40000 * (1 / 2 ^ 53)"
    using c eQ by (intro mult_mono) simp_all
  also have "\<dots> \<le> d" by (simp add: d_def)
  finally have e1: "\<bar>c * Q - c * q\<bar> \<le> d" .
  have cq: "\<bar>c * q\<bar> \<le> 40000 * 1"
    unfolding abs_mult using c q by (intro mult_mono) simp_all
  with e1 d have "\<bar>c * Q\<bar> \<le> 65536" by linarith
  then have "\<bar>x1 - c * Q\<bar> \<le> d" unfolding x1_def d_def by (rule fl_near)
  with e1 have e2: "\<bar>x1 - c * q\<bar> \<le> 2 * d" by linarith
  have kpos: "0 < k" using k by simp
  have div_le: "\<bar>z / k\<bar> \<le> \<bar>z\<bar>" for z
  proof -
    have "\<bar>z\<bar> / k \<le> \<bar>z\<bar> / 1" using k by (intro divide_left_mono) simp_all
    then show ?thesis using kpos by (simp add: abs_divide)
  qed
  have "\<bar>x1\<bar> \<le> 65536" using e2 cq d by linarith
  with div_le[of x1] have "\<bar>x1 / k\<bar> \<le> 65536" by linarith
  then have e3: "\<bar>fl (x1 / k) - x1 / k\<bar> \<le> d" unfolding d_def by (rule fl_near)
  have "x1 / k - c * q / k = (x1 - c * q) / k" by (simp add: diff_divide_distrib)
  with div_le[of "x1 - c * q"] e2 have "\<bar>x1 / k - c * q / k\<bar> \<le> 2 * d" by simp
  with e3 have "\<bar>fl (x1 / k) - c * q / k\<bar> \<le> 3 * d" by linarith
  then show ?thesis by (simp only: jsDiv_def jsMul_def x1_def Q_def d_def)
qed

lemma multiplier_table:
  "(case activityMultipliers level of Some m \<Rightarrow> m | None \<Rightarrow> fl (155 / 100))
     = fl (activityMultiplier level)"
  "1 \<le> activityMultiplier level" "activityMultiplier level \<le> 2"
  by (auto simp: activityMultipliers_def activityMultiplier_def)

lemma split_table:
  "(if g = ''lose_fat'' then (fl (35 / 100), fl (35 / 100), fl (30 / 100))
    else if g = ''gain_muscle'' then (fl (30 / 100), fl (45 / 100), fl (25 / 100))
    else (fl (25 / 100), fl (45 / 100), fl (30 / 100)))
   = (case macroSplit g of (a, b, c) \<Rightarrow> (fl a, fl b, fl c))"
  "case macroSplit g of (a, b, c) \<Rightarrow> 0 \<le> a \<and> a \<le> 1 \<and> 0 \<le> b \<and> b \<le> 1 \<and> 0 \<le> c \<and> c \<le> 1"
  by (simp_all add: macroSplit_def)

text \<open>
  C9, as amended: for a profile with age, weight and height between 0 and 1000 and an
  activity level of the profile's type, \<open>calculateDailyTargets\<close>, which computes in binary64,
  returns the targets of the exact formulas whenever the profile has no tie: the
  Mifflin-St Jeor rate (male \<open>10 * weight + 6.25 * height - 5 * age + 5\<close>, female
  \<open>... - 161\<close>) times the activity multiplier, plus the goal adjustment, rounded; the grams
  of protein, carbohydrates and fat from the goal's split of these calories at 4, 4 and 9
  kcal per gram, rounded. At a tie each target is still within one of the formula's value:
  the calories of the rounded energy, the grams of the rounded share of the calories
  returned. For the male profile of age 30, weight 80 kg, height 180 cm, moderate activity
  and goal maintain the targets are 2759 kcal, 172 g, 310 g and 92 g.
\<close>

theorem calculateDailyTargets_by_formula:
  assumes a: "0 \<le> age p" "age p \<le> 1000"
    and w: "0 \<le> weight p" "weight p \<le> 1000"
    and h: "0 \<le> height p" "height p \<le> 1000"
    and lvl: "activityLevel p \<in> set activityLevels"
  shows "(tieFree p \<longrightarrow> calculateDailyTargets p = dailyTargetsBySpec p) \<and>
     (let t = calculateDailyTargets p; c = of_int (calories t) in
      case macroSplit (goal p) of (proteinPct, carbsPct, fatPct) \<Rightarrow>
        \<bar>calories t - Math_round (energyTarget p)\<bar> \<le> 1 \<and>
        (clearOfHalf (energyTarget p) \<longrightarrow> calories t = Math_round (energyTarget p)) \<and>
        \<bar>protein t - Math_round (c * proteinPct / 4)\<bar> \<le> 1 \<and>
        (clearOfHalf (c * proteinPct / 4) \<longrightarrow> protein t = Math_round (c * proteinPct / 4)) \<and>
        \<bar>carbs t - Math_round (c * carbsPct / 4)\<bar> \<le> 1 \<and>
        (clearOfHalf (c * carbsPct / 4) \<longrightarrow> carbs t = Math_round (c * carbsPct / 4)) \<and>
        \<bar>fat t - Math_round (c * fatPct / 9)\<bar> \<le> 1 \<and>
        (clearOfHalf (c * fatPct / 9) \<longrightarrow> fat t = Math_round (c * fatPct / 9)))"
proof -
  define d :: rat where "d = 1 / 2 ^ 37"
  have d: "0 < d" "d \<le> 1" by (simp_all add: d_def)
  define a3 where "a3 = jsSub (jsAdd (jsMul 10 (weight p)) (jsMul (fl (625 / 100)) (height p)))
      (jsMul 5 (age p))"
  define b where "b = (if sex p = ''male'' then jsAdd a3 5 else jsSub a3 161)"
  define M where "M = (case activityMultipliers (activityLevel p) of Some m \<Rightarrow> m
      | None \<Rightarrow> fl (155 / 100))"
  define t0 where "t0 = jsMul b M"
  define t where "t = (if goal p = ''lose_fat'' then jsSub t0 400
      else if goal p = ''gain_muscle'' then jsAdd t0 300 else t0)"
  define c where "c = Math_round t"
  define pct where "pct = (if goal p = ''lose_fat'' then (fl (35 / 100), fl (35 / 100), fl (30 / 100))
      else if goal p = ''gain_muscle'' then (fl (30 / 100), fl (45 / 100), fl (25 / 100))
      else (fl (25 / 100), fl (45 / 100), fl (30 / 100)))"
  have code: "calculateDailyTargets p = (case pct of (proteinPct, carbsPct, fatPct) \<Rightarrow>
      \<lparr>calories = c,
       protein = Math_round (jsDiv (jsMul (of_int c) proteinPct) 4),
       carbs = Math_round (jsDiv (jsMul (of_int c) carbsPct) 4),
       fat = Math_round (jsDiv (jsMul (of_int c) fatPct) 9)\<rparr>)"
    by (simp only: calculateDailyTargets_def Let_def a3_def b_def M_def t0_def t_def c_def pct_def
        if_distrib[of "\<lambda>x. jsAdd x 5"] if_distrib[of "\<lambda>x. jsSub x 161"])
  define B where "B = mifflinStJeor p"
  define m where "m = activityMultiplier (activityLevel p)"
  define E where "E = energyTarget p"
  have m: "1 \<le> m" "m \<le> 2" "M = fl m"
    unfolding m_def M_def by (simp_all only: multiplier_table)
  have eb: "\<bar>b - B\<bar> \<le> 6 * (1 / 2 ^ 37)"
  proof (cases "sex p = ''male''")
    case True
    with bmr_error(1)[OF w h a] show ?thesis
      by (simp add: b_def a3_def B_def mifflinStJeor_def)
  next
    case False
    with bmr_error(2)[OF w h a] show ?thesis
      by (simp add: b_def a3_def B_def mifflinStJeor_def)
  qed
  have Bb: "\<bar>B\<bar> \<le> 16255"
  proof -
    have "0 \<le> (625 / 100) * height p" "(625 / 100) * height p \<le> 6250" using h by simp_all
    with a w show ?thesis unfolding B_def mifflinStJeor_def by (simp split: if_splits) linarith
  qed
  have et0: "\<bar>t0 - B * m\<bar> \<le> 20 * (1 / 2 ^ 37)"
    unfolding t0_def m(3) by (rule tdee_error[OF eb Bb m(1,2)])
  have Tb: "\<bar>B * m\<bar> \<le> 32510"
  proof -
    have "\<bar>B * m\<bar> \<le> 16255 * 2" unfolding abs_mult using Bb m by (intro mult_mono) simp_all
    then show ?thesis by simp
  qed
  have E: "E = B * m + goalAdjustment (goal p)"
    by (simp add: E_def energyTarget_def B_def m_def)
  have et: "\<bar>t - E\<bar> \<le> 21 * d"
  proof -
    consider "goal p = ''lose_fat''" | "goal p \<noteq> ''lose_fat''" "goal p = ''gain_muscle''"
      | "goal p \<noteq> ''lose_fat''" "goal p \<noteq> ''gain_muscle''" by blast
    then show ?thesis
    proof cases
      case 1
      with adjust_error(1)[OF et0 Tb] show ?thesis by (simp add: t_def E goalAdjustment_def d_def)
    next
      case 2
      with adjust_error(2)[OF et0 Tb] show ?thesis by (simp add: t_def E goalAdjustment_def d_def)
    next
      case 3
      with et0 d show ?thesis by (simp add: t_def E goalAdjustment_def d_def)
    qed
  qed
  note et
  also have "21 * d \<le> 1 / 2 ^ 31" by (simp add: d_def)
  finally have near: "\<bar>t - E\<bar> \<le> 1 / 2 ^ 31" .
  have c1: "\<bar>c - Math_round E\<bar> \<le> 1"
    unfolding c_def using near by (rule Math_round_near)
  have c2: "c = Math_round E" if "clearOfHalf E"
    unfolding c_def using near that by (rule Math_round_stable)
  have cb: "\<bar>of_int c :: rat\<bar> \<le> 40000"
  proof -
    have "\<bar>goalAdjustment (goal p)\<bar> \<le> 400" by (simp add: goalAdjustment_def)
    with Tb have "\<bar>E\<bar> \<le> 32910" unfolding E by linarith
    with et d have "\<bar>t\<bar> \<le> 32931" by linarith
    with Math_round_bounds[of t] show ?thesis unfolding c_def by linarith
  qed
  obtain pp cp fp where s: "macroSplit (goal p) = (pp, cp, fp)" by (cases "macroSplit (goal p)")
  have pct: "pct = (fl pp, fl cp, fl fp)"
    unfolding pct_def split_table(1) s by simp
  have r: "0 \<le> pp" "pp \<le> 1" "0 \<le> cp" "cp \<le> 1" "0 \<le> fp" "fp \<le> 1"
    using split_table(2)[of "goal p"] unfolding s by simp_all
  have grams: "\<bar>Math_round (jsDiv (jsMul (of_int c) (fl q)) k) - Math_round (of_int c * q / k)\<bar> \<le> 1"
    "clearOfHalf (of_int c * q / k) \<longrightarrow>
      Math_round (jsDiv (jsMul (of_int c) (fl q)) k) = Math_round (of_int c * q / k)"
    if "0 \<le> q" "q \<le> 1" "1 \<le> k" for q k :: rat
  proof -
    have "\<bar>jsDiv (jsMul (of_int c) (fl q)) k - of_int c * q / k\<bar> \<le> 3 * d"
      unfolding d_def by (rule macro_error[OF cb that])
    also have "3 * d \<le> 1 / 2 ^ 31" by (simp add: d_def)
    finally have n: "\<bar>jsDiv (jsMul (of_int c) (fl q)) k - of_int c * q / k\<bar> \<le> 1 / 2 ^ 31" .
    from n show "\<bar>Math_round (jsDiv (jsMul (of_int c) (fl q)) k) - Math_round (of_int c * q / k)\<bar> \<le> 1"
      by (rule Math_round_near)
    from n show "clearOfHalf (of_int c * q / k) \<longrightarrow>
      Math_round (jsDiv (jsMul (of_int c) (fl q)) k) = Math_round (of_int c * q / k)"
      by (auto intro: Math_round_stable)
  qed
  have k: "(1::rat) \<le> 4" "(1::rat) \<le> 9" by simp_all
  note gp = grams[OF r(1,2) k(1)] and gc = grams[OF r(3,4) k(1)] and gf = grams[OF r(5,6) k(2)]
  have t: "calculateDailyTargets p =
      \<lparr>calories = c,
       protein = Math_round (jsDiv (jsMul (of_int c) (fl pp)) 4),
       carbs = Math_round (jsDiv (jsMul (of_int c) (fl cp)) 4),
       fat = Math_round (jsDiv (jsMul (of_int c) (fl fp)) 9)\<rparr>"
    unfolding code pct by simp
  have first: "calculateDailyTargets p = dailyTargetsBySpec p" if "tieFree p"
  proof -
    from that have clearE: "clearOfHalf E" by (simp add: tieFree_def E_def)
    note cE = c2[OF clearE]
    from that have clear: "clearOfHalf (of_int c * pp / 4)" "clearOfHalf (of_int c * cp / 4)"
      "clearOfHalf (of_int c * fp / 9)"
      by (simp_all add: tieFree_def Let_def s cE E_def)
    have "calculateDailyTargets p =
        \<lparr>calories = c,
         protein = Math_round (of_int c * pp / 4),
         carbs = Math_round (of_int c * cp / 4),
         fat = Math_round (of_int c * fp / 9)\<rparr>"
      unfolding t using gp(2) gc(2) gf(2) clear by simp
    also have "\<dots> = dailyTargetsBySpec p"
      by (simp add: dailyTargetsBySpec_def Let_def s cE E_def)
    finally show ?thesis .
  qed
  have second: "\<bar>c - Math_round E\<bar> \<le> 1 \<and> (clearOfHalf E \<longrightarrow> c = Math_round E)"
    using c1 c2 by blast
  show ?thesis
    unfolding Let_def s
    using first second gp gc gf by (simp add: t E_def)
qed

theorem calculateDailyTargets_by_formula_witness:
  "age exampleProfile \<le> 1000 \<and> weight exampleProfile \<le> 1000 \<and> height exampleProfile \<le> 1000 \<and>
   activityLevel exampleProfile \<in> set activityLevels \<and> tieFree exampleProfile \<and>
   calculateDailyTargets exampleProfile = \<lparr>calories = 2759, protein = 172, carbs = 310, fat = 92\<rparr>"
proof -
  have b: "0 \<le> age exampleProfile" "age exampleProfile \<le> 1000"
    "0 \<le> weight exampleProfile" "weight exampleProfile \<le> 1000"
    "0 \<le> height exampleProfile" "height exampleProfile \<le> 1000"
    "activityLevel exampleProfile \<in> set activityLevels"
    by (simp_all add: exampleProfile_def activityLevels_def)
  have e: "energyTarget exampleProfile = 2759"
    by (simp add: energyTarget_def mifflinStJeor_def activityMultiplier_def goalAdjustment_def
        exampleProfile_def)
  have s: "macroSplit (goal exampleProfile) = (1 / 4, 9 / 20, 3 / 10)"
    by (simp add: macroSplit_def exampleProfile_def)
  have t: "tieFree exampleProfile"
    by (simp add: tieFree_def clearOfHalf_def Let_def e s Math_round_fraction)
  have "dailyTargetsBySpec exampleProfile = \<lparr>calories = 2759, protein = 172, carbs = 310, fat = 92\<rparr>"
    by (simp add: dailyTargetsBySpec_def Let_def e s Math_round_fraction)
  with calculateDailyTargets_by_formula[OF b] b t show ?thesis by simp
qed

text \<open>
  At a tie the code can differ from the exact formulas. For the male profile of age 25,
  weight 70 kg, height 180 cm, very active, goal lose fat the calories are 2840 and 35% of
  them at 4 kcal per gram are 248.5 g exactly, which the formula rounds to 249 g. The number
  0.35 of the code is slightly below 35/100, the product is 993.9999999999999, and the code
  returns 248 g.
\<close>

lemma lean_numbers:
  "fl (19 / 10) = 4278419646001971 / 2251799813685248"
  "jsMul 1705 (4278419646001971 / 2251799813685248) = 6479 / 2"
  "jsSub (6479 / 2) 400 = 5679 / 2"
  "fl (7 / 20) = 3152519739159347 / 9007199254740992"
  "jsMul 2840 (3152519739159347 / 9007199254740992) = 8743316464074751 / 8796093022208"
  "jsDiv (8743316464074751 / 8796093022208) 4 = 8743316464074751 / 35184372088832"
  "fl (3 / 10) = 5404319552844595 / 18014398509481984"
  "jsMul 2840 (5404319552844595 / 18014398509481984) = 852"
  "jsDiv 852 9 = 6661574448818859 / 70368744177664"
proof -
  show "fl (19 / 10) = 4278419646001971 / 2251799813685248"
    by (subst fl_eq[where e = "- 52"]) (simp_all add: fl_eval)
  show "jsMul 1705 (4278419646001971 / 2251799813685248) = 6479 / 2"
    unfolding jsMul_def by (subst fl_eq[where e = "- 41"]) (simp_all add: fl_eval)
  show "jsSub (6479 / 2) 400 = 5679 / 2"
    using fl_exact[of 5679 "- 1"] by (simp add: jsSub_def power_int_minus)
  show "fl (7 / 20) = 3152519739159347 / 9007199254740992"
    by (subst fl_eq[where e = "- 54"]) (simp_all add: fl_eval)
  show "jsMul 2840 (3152519739159347 / 9007199254740992) = 8743316464074751 / 8796093022208"
    unfolding jsMul_def by (subst fl_eq[where e = "- 43"]) (simp_all add: fl_eval)
  show "jsDiv (8743316464074751 / 8796093022208) 4 = 8743316464074751 / 35184372088832"
    using fl_exact[of 8743316464074751 "- 45"] by (simp add: jsDiv_def power_int_minus)
  show "fl (3 / 10) = 5404319552844595 / 18014398509481984"
    by (subst fl_eq[where e = "- 54"]) (simp_all add: fl_eval)
  show "jsMul 2840 (5404319552844595 / 18014398509481984) = 852"
    unfolding jsMul_def by (subst fl_eq[where e = "- 43"]) (simp_all add: fl_eval)
  show "jsDiv 852 9 = 6661574448818859 / 70368744177664"
    unfolding jsDiv_def by (subst fl_eq[where e = "- 46"]) (simp_all add: fl_eval)
qed

lemma lean_bmr:
  "jsMul 10 70 = 700" "jsMul (25 / 4) 180 = 1125" "jsAdd 700 1125 = 1825" "jsMul 5 25 = 125"
  "jsSub 1825 125 = 1700" "jsAdd 1700 5 = 1705"
  by (simp_all add: jsMul_def jsAdd_def jsSub_def fl_numeral)

theorem calculateDailyTargets_half_gram_counterexample:
  "calculateDailyTargets leanProfile = \<lparr>calories = 2840, protein = 248, carbs = 248, fat = 95\<rparr> \<and>
   dailyTargetsBySpec leanProfile = \<lparr>calories = 2840, protein = 249, carbs = 249, fat = 95\<rparr> \<and>
   mifflinStJeor leanProfile = 1705 \<and> energyTarget leanProfile = 5679 / 2 \<and>
   2840 * (35 / 100) / 4 = (497 / 2 :: rat)"
proof -
  have q: "fl (25 / 4) = 25 / 4" using fl_exact[of 25 "- 2"] by (simp add: power_int_minus)
  have code: "calculateDailyTargets leanProfile =
      \<lparr>calories = 2840, protein = 248, carbs = 248, fat = 95\<rparr>"
    by (simp add: calculateDailyTargets_def leanProfile_def Let_def activityMultipliers_def q
        lean_bmr lean_numbers Math_round_fraction)
  have e: "mifflinStJeor leanProfile = 1705" "energyTarget leanProfile = 5679 / 2"
    by (simp_all add: energyTarget_def mifflinStJeor_def activityMultiplier_def goalAdjustment_def
        leanProfile_def)
  have s: "macroSplit (goal leanProfile) = (7 / 20, 7 / 20, 3 / 10)"
    by (simp add: macroSplit_def leanProfile_def)
  have "dailyTargetsBySpec leanProfile = \<lparr>calories = 2840, protein = 249, carbs = 249, fat = 95\<rparr>"
    by (simp add: dailyTargetsBySpec_def Let_def e s Math_round_fraction)
  with code e show ?thesis by simp
qed


end
